theory Spec2Isabelle
  imports Complex_Main "HOL-Library.Log_Nat"
begin

section \<open>C integers\<close>

text \<open>
  The globals of \<^verbatim>\<open>bytebeam_esp_hal.c\<close> are C \<^verbatim>\<open>int\<close>s (32 bits on the ESP32).
  They are modelled as mathematical integers; a signed addition whose result leaves the
  range of \<^verbatim>\<open>int\<close> is undefined behaviour in C and is the value \<open>None\<close> here.
\<close>

definition INT_MIN :: int where
  "INT_MIN = - (2 ^ 31)"

definition INT_MAX :: int where
  "INT_MAX = 2 ^ 31 - 1"

definition in_int :: "int \<Rightarrow> bool" where
  "in_int x \<longleftrightarrow> INT_MIN \<le> x \<and> x \<le> INT_MAX"

definition c_add :: "int \<Rightarrow> int \<Rightarrow> int option" where
  "c_add a b = (if in_int (a + b) then Some (a + b) else None)"

section \<open>The floating-point expression of the progress computation\<close>

text \<open>
  Line 66 computes
  \<^verbatim>\<open>update_progress_percent=(((float)downloaded_data_len/(float)ota_img_data_len)*100.00);\<close>
  Both operands are converted to binary32, divided in binary32, the quotient is converted
  to binary64 (exactly) and multiplied by the binary64 constant 100.0, and the product is
  converted to \<^verbatim>\<open>int\<close> by truncation towards zero. Every operation rounds to nearest,
  ties to even (IEEE 754 default).

  A non-negative floating-point value is a pair \<open>(m, e)\<close> standing for \<open>m * 2^e\<close>; a
  non-negative rational is a pair \<open>(n, d)\<close> standing for \<open>n / d\<close>. All magnitudes that
  occur (32-bit integers and their quotients) are far inside the normal range of both
  formats, so neither overflow nor subnormal numbers arise.
\<close>

type_synonym fp = "int \<times> int"

definition scale2 :: "int \<Rightarrow> int \<times> int \<Rightarrow> int \<times> int" where
  "scale2 s q = (case q of (n, d) \<Rightarrow>
     if 0 \<le> s then (n * 2 ^ nat s, d) else (n, d * 2 ^ nat (- s)))"

definition round_even :: "int \<times> int \<Rightarrow> int" where
  "round_even q = (case q of (n, d) \<Rightarrow>
     let k = n div d; r = n mod d in
     if 2 * r < d then k
     else if d < 2 * r then k + 1
     else if even k then k else k + 1)"

definition ilog2 :: "int \<times> int \<Rightarrow> int" where
  "ilog2 q = (case q of (n, d) \<Rightarrow>
     let e = bitlen n - bitlen d in
     (case scale2 (- e) (n, d) of (n', d') \<Rightarrow> if d' \<le> n' then e else e - 1))"

definition fp_round :: "nat \<Rightarrow> int \<times> int \<Rightarrow> fp" where
  "fp_round p q = (let s = int p - 1 - ilog2 q in (round_even (scale2 s q), - s))"

definition float_of_int :: "int \<Rightarrow> fp" where
  "float_of_int x = fp_round 24 (x, 1)"

definition float_div :: "fp \<Rightarrow> fp \<Rightarrow> fp" where
  "float_div a b = (case a of (m1, e1) \<Rightarrow> case b of (m2, e2) \<Rightarrow>
     fp_round 24 (scale2 (e1 - e2) (m1, m2)))"

definition double_times_100 :: "fp \<Rightarrow> fp" where
  "double_times_100 a = (case a of (m, e) \<Rightarrow> fp_round 53 (scale2 e (100 * m, 1)))"

definition fp_trunc :: "fp \<Rightarrow> int" where
  "fp_trunc a = (case a of (m, e) \<Rightarrow>
     if 0 \<le> e then m * 2 ^ nat e else m div 2 ^ nat (- e))"

text \<open>The real numbers that a rational pair and a floating-point pair stand for.\<close>

definition rat_val :: "int \<times> int \<Rightarrow> real" where
  "rat_val q = real_of_int (fst q) / real_of_int (snd q)"

definition fp_val :: "fp \<Rightarrow> real" where
  "fp_val a = real_of_int (fst a) * 2 powr real_of_int (snd a)"

text \<open>
  The percentage of line 66. With \<^verbatim>\<open>ota_img_data_len == 0\<close> the quotient is an infinity
  or a NaN, whose conversion to \<^verbatim>\<open>int\<close> is undefined behaviour; so is the conversion of a
  value outside the range of \<^verbatim>\<open>int\<close>. IEEE arithmetic and truncation are symmetric in
  the sign, so the magnitude is computed on the absolute values.
\<close>

definition progress_percent :: "int \<Rightarrow> int \<Rightarrow> int option" where
  "progress_percent dl img =
     (if img = 0 then None
      else
        let q = float_div (float_of_int \<bar>dl\<bar>) (float_of_int \<bar>img\<bar>);
            v = sgn dl * sgn img * fp_trunc (double_times_100 q)
        in if in_int v then Some v else None)"

section \<open>State of the HAL\<close>

text \<open>
  The file-scope variables of \<^verbatim>\<open>bytebeam_esp_hal.c\<close> (lines 15 to 23), the non-volatile
  storage the file reads and writes, and a chronological trace of the calls it makes into
  code outside the file. The globals \<^verbatim>\<open>data_len\<close> and \<^verbatim>\<open>test_mclient_handle\<close> are never
  read by the modelled functions and are left out.
\<close>

datatype effect =
    Publish int string string
  | HttpClientPerform
  | HttpsOta
  | MqttClientInit
  | MqttClientStart
  | NvsOpen
  | NvsSet string int
  | NvsCommit
  | NvsClose
  | EspRestart
  | PublishActionCompleted string

text \<open>
  \<open>Publish p status err\<close> is the call
  \<^verbatim>\<open>publish_action_status(test_device_config, ota_action_id, p, test_mclient_handle, status, err)\<close>.
  \<open>PublishActionCompleted id\<close> is the call \<^verbatim>\<open>bytebeam_publish_action_completed(client, id)\<close>
  that \<^verbatim>\<open>bytebeam_sdk.h\<close> declares: the response message after an action is completed.
\<close>

record hal_state =
  downloaded_data_len :: int
  ota_img_data_len :: int
  update_progress_percent :: int
  loop_var :: int
  connection_status :: int
  ota_update_completed :: int
  ota_action_id_str :: string
  nvs_handle_valid :: bool
  nvs_entries :: "string \<rightharpoonup> int"
  nvs_committed :: "string \<rightharpoonup> int"
  trace :: "effect list"

text \<open>The values the C start-up code gives the globals; the storage is a parameter.\<close>

definition boot_state :: "bool \<Rightarrow> (string \<rightharpoonup> int) \<Rightarrow> hal_state" where
  "boot_state ok flash =
     \<lparr> downloaded_data_len = 0, ota_img_data_len = 0, update_progress_percent = 0,
       loop_var = 0, connection_status = 0, ota_update_completed = 0,
       ota_action_id_str = [], nvs_handle_valid = ok,
       nvs_entries = flash, nvs_committed = flash, trace = [] \<rparr>"

definition emit :: "effect \<Rightarrow> hal_state \<Rightarrow> hal_state" where
  "emit x st = st\<lparr>trace := trace st @ [x]\<rparr>"

section \<open>The HTTP event handlers\<close>

datatype http_event_id =
    HTTP_EVENT_ERROR
  | HTTP_EVENT_ON_CONNECTED
  | HTTP_EVENT_HEADER_SENT
  | HTTP_EVENT_ON_HEADER
  | HTTP_EVENT_ON_DATA
  | HTTP_EVENT_ON_FINISH
  | HTTP_EVENT_DISCONNECTED

record http_event =
  event_id :: http_event_id
  data_len :: int

text \<open>
  The \<^verbatim>\<open>HTTP_EVENT_ON_DATA\<close> branch of \<^verbatim>\<open>_http_event_handler\<close>, lines 63 to 84.
\<close>

definition http_on_data :: "int \<Rightarrow> hal_state \<Rightarrow> hal_state option" where
  "http_on_data len st =
     (case c_add (downloaded_data_len st) len of
        None \<Rightarrow> None
      | Some dl \<Rightarrow>
          (case progress_percent dl (ota_img_data_len st) of
             None \<Rightarrow> None
           | Some pc \<Rightarrow>
               let st1 = st\<lparr>downloaded_data_len := dl, update_progress_percent := pc\<rparr> in
               (case (if pc = loop_var st1
                      then (case c_add (loop_var st1) 5 of
                              None \<Rightarrow> None
                            | Some lv \<Rightarrow>
                                Some ((emit (Publish pc
                                        (if loop_var st1 = 100 then ''Complete'' else ''Progress'')
                                        ''Success'') st1)\<lparr>loop_var := lv\<rparr>))
                      else Some st1) of
                  None \<Rightarrow> None
                | Some st2 \<Rightarrow>
                    Some (if loop_var st2 = 105 then st2\<lparr>loop_var := 0\<rparr> else st2))))"

definition http_event_handler :: "http_event \<Rightarrow> hal_state \<Rightarrow> hal_state option" where
  "http_event_handler evt st =
     (case event_id evt of
        HTTP_EVENT_ON_DATA \<Rightarrow> http_on_data (data_len evt) st
      | _ \<Rightarrow> Some st)"

text \<open>\<^verbatim>\<open>_test_event_handler\<close>, lines 99 to 113.\<close>

definition test_event_handler :: "http_event \<Rightarrow> hal_state \<Rightarrow> hal_state option" where
  "test_event_handler evt st =
     (case event_id evt of
        HTTP_EVENT_ON_DATA \<Rightarrow>
          (case c_add (ota_img_data_len st) (data_len evt) of
             None \<Rightarrow> None
           | Some n \<Rightarrow> Some (st\<lparr>ota_img_data_len := n\<rparr>))
      | _ \<Rightarrow> Some st)"

text \<open>
  \<^verbatim>\<open>esp_http_client_perform\<close> and \<^verbatim>\<open>esp_https_ota\<close> belong to the ESP-IDF. Each runs one
  HTTP transfer, calls the configured event handler once per event, and returns an
  \<^verbatim>\<open>esp_err_t\<close>. A transfer is given by the events it delivers and the code it returns.
\<close>

fun deliver :: "(http_event \<Rightarrow> hal_state \<Rightarrow> hal_state option) \<Rightarrow> http_event list
    \<Rightarrow> hal_state \<Rightarrow> hal_state option" where
  "deliver h [] st = Some st"
| "deliver h (evt # evts) st =
     (case h evt st of None \<Rightarrow> None | Some st' \<Rightarrow> deliver h evts st')"

record transfer =
  events :: "http_event list"
  result :: int

definition ESP_OK :: int where
  "ESP_OK = 0"

definition ESP_FAIL :: int where
  "ESP_FAIL = - 1"

definition ESP_ERR_NVS_NOT_FOUND :: int where
  "ESP_ERR_NVS_NOT_FOUND = 4354"

definition ESP_ERR_NVS_INVALID_HANDLE :: int where
  "ESP_ERR_NVS_INVALID_HANDLE = 4359"

section \<open>\<^verbatim>\<open>bytebeam_hal_ota\<close>\<close>

text \<open>Lines 140 to 142: the counters that are reset at the start of every call.\<close>

definition ota_reset :: "hal_state \<Rightarrow> hal_state" where
  "ota_reset st =
     st\<lparr>ota_img_data_len := 0, update_progress_percent := 0, downloaded_data_len := 0\<rparr>"

text \<open>
  Lines 143 to 150: the size-discovery transfer, with \<^verbatim>\<open>_test_event_handler\<close>. Its return
  code \<^verbatim>\<open>err\<close> is used for a log line only.
\<close>

definition ota_probe :: "transfer \<Rightarrow> hal_state \<Rightarrow> hal_state option" where
  "ota_probe probe st = deliver test_event_handler (events probe) (emit HttpClientPerform st)"

text \<open>Line 152: the download, with \<^verbatim>\<open>_http_event_handler\<close>; its code is returned.\<close>

definition ota_download :: "transfer \<Rightarrow> hal_state \<Rightarrow> (int \<times> hal_state) option" where
  "ota_download dl st =
     (case deliver http_event_handler (events dl) (emit HttpsOta st) of
        None \<Rightarrow> None
      | Some st' \<Rightarrow> Some (result dl, st'))"

definition bytebeam_hal_ota :: "transfer \<Rightarrow> transfer \<Rightarrow> hal_state \<Rightarrow> (int \<times> hal_state) option" where
  "bytebeam_hal_ota probe dl st =
     (case ota_probe probe (ota_reset st) of
        None \<Rightarrow> None
      | Some st1 \<Rightarrow> ota_download dl st1)"

section \<open>\<^verbatim>\<open>bytebeam_hal_init\<close>\<close>

text \<open>
  The calls into the non-volatile storage library of the ESP-IDF. \<^verbatim>\<open>nvs_open\<close> may fail;
  the source ignores its result, and every later call on the handle then returns
  \<^verbatim>\<open>ESP_ERR_NVS_INVALID_HANDLE\<close>.
\<close>

definition nvs_get_i32 :: "string \<Rightarrow> hal_state \<Rightarrow> int \<times> int option" where
  "nvs_get_i32 key st =
     (if \<not> nvs_handle_valid st then (ESP_ERR_NVS_INVALID_HANDLE, None)
      else case nvs_entries st key of
             None \<Rightarrow> (ESP_ERR_NVS_NOT_FOUND, None)
           | Some v \<Rightarrow> (ESP_OK, Some v))"

definition nvs_set_i32 :: "string \<Rightarrow> int \<Rightarrow> hal_state \<Rightarrow> hal_state" where
  "nvs_set_i32 key v st =
     (if \<not> nvs_handle_valid st then emit (NvsSet key v) st
      else emit (NvsSet key v) (st\<lparr>nvs_entries := (nvs_entries st)(key \<mapsto> v)\<rparr>))"

definition nvs_commit :: "hal_state \<Rightarrow> hal_state" where
  "nvs_commit st =
     (if \<not> nvs_handle_valid st then emit NvsCommit st
      else emit NvsCommit (st\<lparr>nvs_committed := nvs_entries st\<rparr>))"

text \<open>\<^verbatim>\<open>sprintf(ota_action_id_str, "%d", ota_action_id_val)\<close>: decimal digits, with a sign.\<close>

fun digits :: "nat \<Rightarrow> string" where
  "digits n =
     (if n < 10 then [char_of (48 + n)]
      else digits (n div 10) @ [char_of (48 + n mod 10)])"

definition sprintf_d :: "int \<Rightarrow> string" where
  "sprintf_d v = (if v < 0 then CHR ''-'' # digits (nat (- v)) else digits (nat v))"

text \<open>
  Lines 232 to 268. \<open>junk\<close> is the value the uninitialised local \<^verbatim>\<open>ota_action_id_val\<close>
  holds when \<^verbatim>\<open>nvs_get_i32\<close> does not write it. The function returns 0 on every path.
\<close>

definition bytebeam_hal_init :: "int \<Rightarrow> hal_state \<Rightarrow> int \<times> hal_state" where
  "bytebeam_hal_init junk st =
     (let st1 = emit NvsOpen (emit MqttClientStart (emit MqttClientInit st));
          (err, update_flag) = nvs_get_i32 ''update_flag'' st1;
          st2 = (if err = ESP_OK
                 then (if update_flag = Some 1
                       then
                         let st3 = nvs_commit (nvs_set_i32 ''update_flag'' 0 st1);
                             ota_action_id_val =
                               (case snd (nvs_get_i32 ''action_id_val'' st3) of
                                  None \<Rightarrow> junk | Some v \<Rightarrow> v)
                         in st3\<lparr>ota_action_id_str := sprintf_d ota_action_id_val,
                                ota_update_completed := 1\<rparr>
                       else st1)
                 else st1)
      in (0, emit NvsClose st2))"

section \<open>\<^verbatim>\<open>bytebeam_hal_restart\<close>\<close>


section \<open>Progress reporting: auxiliary notions\<close>

text \<open>
  The status message the data handler sends for a percentage, the values the throttling
  cursor \<^verbatim>\<open>loop_var\<close> takes in a run that starts at 0, and the percentage as the
  specification words it: the floor of \<open>downloaded * 100 / total\<close>, clamped to 0..100.
\<close>

definition progress_msg :: "int \<Rightarrow> effect" where
  "progress_msg p = Publish p (if p = 100 then ''Complete'' else ''Progress'') ''Success''"

definition cursor_ok :: "int \<Rightarrow> bool" where
  "cursor_ok c \<longleftrightarrow> 0 \<le> c \<and> c \<le> 100 \<and> c mod 5 = 0"


definition data_event :: "int \<Rightarrow> http_event" where
  "data_event n = \<lparr>event_id = HTTP_EVENT_ON_DATA, data_len = n\<rparr>"

definition spec_percent :: "int \<Rightarrow> int \<Rightarrow> int" where
  "spec_percent dl img = max 0 (min 100 (dl * 100 div img))"


text \<open>The number of bytes a transfer delivers in its \<^verbatim>\<open>HTTP_EVENT_ON_DATA\<close> events.\<close>

fun data_total :: "http_event list \<Rightarrow> int" where
  "data_total [] = 0"
| "data_total (evt # evts) =
     (if event_id evt = HTTP_EVENT_ON_DATA then data_len evt else 0) + data_total evts"

section \<open>The confirmation after boot\<close>


section \<open>The action registry\<close>

text \<open>
  \<^verbatim>\<open>bytebeam_sdk.h\<close> declares the table (\<^verbatim>\<open>action_funcs\<close>, an array of
  \<^verbatim>\<open>BYTEBEAM_NUMBER_OF_ACTIONS\<close> name and function-pointer pairs inside
  \<^verbatim>\<open>bytebeam_client_t\<close>) and the prototypes of the operations on it. A slot is \<open>None\<close>
  when it is empty and \<open>Some (name, func)\<close> when it is occupied.
\<close>

definition BYTEBEAM_NUMBER_OF_ACTIONS :: nat where
  "BYTEBEAM_NUMBER_OF_ACTIONS = 10"

type_synonym 'h action_funcs = "(string \<times> 'h) option list"

datatype registry_error = RegistryFull | DuplicateAction | ActionNotFound

datatype registry_status = Succeeded | Failed registry_error

definition named :: "string \<Rightarrow> (string \<times> 'h) option \<Rightarrow> bool" where
  "named name slot = (case slot of None \<Rightarrow> False | Some (n, f) \<Rightarrow> n = name)"

definition occupied :: "'h action_funcs \<Rightarrow> nat" where
  "occupied tbl = length (filter (\<lambda>slot. slot \<noteq> None) tbl)"

definition reset_table :: "'h action_funcs" where
  "reset_table = replicate BYTEBEAM_NUMBER_OF_ACTIONS None"

fun occupy_first :: "string \<times> 'h \<Rightarrow> 'h action_funcs \<Rightarrow> 'h action_funcs" where
  "occupy_first x [] = []"
| "occupy_first x (None # tbl) = Some x # tbl"
| "occupy_first x (Some y # tbl) = Some y # occupy_first x tbl"

fun replace_first :: "string \<Rightarrow> (string \<times> 'h) option \<Rightarrow> 'h action_funcs \<Rightarrow> 'h action_funcs" where
  "replace_first name new [] = []"
| "replace_first name new (slot # tbl) =
     (if named name slot then new # tbl else slot # replace_first name new tbl)"

text \<open>
  Modelled from the spec: the body of \<^verbatim>\<open>bytebeam_add_action_handler\<close>, which is declared in
  \<^verbatim>\<open>bytebeam_sdk.h\<close> and defined in a file that is not part of the sources at hand. The
  specification (4.1): add fails with RegistryFull if no empty slot remains; fails with
  DuplicateAction if the name already occupies a slot; otherwise occupies the first empty
  slot and succeeds.
\<close>

definition bytebeam_add_action_handler ::
    "'h \<Rightarrow> string \<Rightarrow> 'h action_funcs \<Rightarrow> registry_status \<times> 'h action_funcs" where
  "bytebeam_add_action_handler func_ptr func_name tbl =
     (if list_all (\<lambda>slot. slot \<noteq> None) tbl then (Failed RegistryFull, tbl)
      else if list_ex (named func_name) tbl then (Failed DuplicateAction, tbl)
      else (Succeeded, occupy_first (func_name, func_ptr) tbl))"

text \<open>
  Modelled from the spec: the body of \<^verbatim>\<open>bytebeam_update_action_handler\<close>, declared in
  \<^verbatim>\<open>bytebeam_sdk.h\<close> only. The specification (4.1): update fails with ActionNotFound if the
  name is not present; otherwise replaces the handler in place, preserving slot position.
\<close>

definition bytebeam_update_action_handler ::
    "'h \<Rightarrow> string \<Rightarrow> 'h action_funcs \<Rightarrow> registry_status \<times> 'h action_funcs" where
  "bytebeam_update_action_handler new_func_ptr func_name tbl =
     (if list_ex (named func_name) tbl
      then (Succeeded, replace_first func_name (Some (func_name, new_func_ptr)) tbl)
      else (Failed ActionNotFound, tbl))"

text \<open>
  Modelled from the spec: the body of \<^verbatim>\<open>bytebeam_remove_action_handler\<close>, declared in
  \<^verbatim>\<open>bytebeam_sdk.h\<close> only. The specification (4.1): remove fails with ActionNotFound if
  absent; otherwise clears the slot, freeing it for reuse, without compacting or
  reordering other slots.
\<close>

definition bytebeam_remove_action_handler ::
    "string \<Rightarrow> 'h action_funcs \<Rightarrow> registry_status \<times> 'h action_funcs" where
  "bytebeam_remove_action_handler func_name tbl =
     (if list_ex (named func_name) tbl
      then (Succeeded, replace_first func_name None tbl)
      else (Failed ActionNotFound, tbl))"

text \<open>A sequence of add calls, each on the table the previous one left.\<close>

fun add_all :: "(string \<times> 'h) list \<Rightarrow> 'h action_funcs \<Rightarrow> 'h action_funcs" where
  "add_all [] tbl = tbl"
| "add_all ((name, f) # xs) tbl = add_all xs (snd (bytebeam_add_action_handler f name tbl))"

section \<open>Boot: \<^verbatim>\<open>bytebeam_hal_init\<close> and the persisted update record\<close>

lemmas nvs_defs = nvs_get_i32_def nvs_set_i32_def nvs_commit_def emit_def
  ESP_OK_def ESP_ERR_NVS_NOT_FOUND_def ESP_ERR_NVS_INVALID_HANDLE_def

text \<open>
  Claim C8. At boot, the absence of a persisted update record is not fatal: when
  \<^verbatim>\<open>nvs_get_i32\<close> answers \<^verbatim>\<open>ESP_ERR_NVS_NOT_FOUND\<close> for the key \<^verbatim>\<open>update_flag\<close>,
  \<^verbatim>\<open>bytebeam_hal_init\<close> returns 0 (success), publishes no status (the only calls it makes
  are the start of the MQTT client and the opening and closing of the storage), and
  changes neither the globals nor the storage.
\<close>

theorem init_not_found_is_normal_path:
  assumes "fst (nvs_get_i32 ''update_flag'' st) = ESP_ERR_NVS_NOT_FOUND"
  shows "bytebeam_hal_init junk st =
           (0, st\<lparr>trace := trace st @ [MqttClientInit, MqttClientStart, NvsOpen, NvsClose]\<rparr>)"
  using assms
  by (auto simp: bytebeam_hal_init_def nvs_defs Let_def split: if_splits option.splits)

text \<open>The first boot of a device whose storage is empty.\<close>

theorem init_not_found_is_normal_path_witness:
  "fst (nvs_get_i32 ''update_flag'' (boot_state True Map.empty)) = ESP_ERR_NVS_NOT_FOUND
   \<and> fst (bytebeam_hal_init 7 (boot_state True Map.empty)) = 0
   \<and> trace (snd (bytebeam_hal_init 7 (boot_state True Map.empty))) =
       [MqttClientInit, MqttClientStart, NvsOpen, NvsClose]
   \<and> ota_update_completed (snd (bytebeam_hal_init 7 (boot_state True Map.empty))) = 0"
proof -
  have h: "fst (nvs_get_i32 ''update_flag'' (boot_state True Map.empty)) = ESP_ERR_NVS_NOT_FOUND"
    by (simp add: nvs_get_i32_def boot_state_def)
  show ?thesis
    using h init_not_found_is_normal_path [OF h, of 7]
    by (simp add: boot_state_def)
qed

text \<open>
  Claim C2, as the code has it. On every boot where the storage is readable and
  \<^verbatim>\<open>update_flag\<close> is 1, \<^verbatim>\<open>bytebeam_hal_init\<close> first writes \<^verbatim>\<open>update_flag = 0\<close> and commits
  it, then reads the stored action id, prints it in decimal into \<^verbatim>\<open>ota_action_id_str\<close>
  and sets \<^verbatim>\<open>ota_update_completed\<close> to 1, and returns 0. It publishes nothing itself: the
  record is cleared and committed before any status can be sent.
\<close>

theorem init_pending_clears_then_flags:
  assumes "nvs_handle_valid st" and "nvs_entries st ''update_flag'' = Some 1"
  shows "bytebeam_hal_init junk st =
           (0, st\<lparr>ota_update_completed := 1,
                  ota_action_id_str :=
                    sprintf_d (case nvs_entries st ''action_id_val'' of None \<Rightarrow> junk | Some v \<Rightarrow> v),
                  nvs_entries := (nvs_entries st)(''update_flag'' \<mapsto> 0),
                  nvs_committed := (nvs_entries st)(''update_flag'' \<mapsto> 0),
                  trace := trace st @ [MqttClientInit, MqttClientStart, NvsOpen,
                                       NvsSet ''update_flag'' 0, NvsCommit, NvsClose]\<rparr>)"
  using assms
  by (auto simp: bytebeam_hal_init_def nvs_defs Let_def split: if_splits option.splits)

text \<open>The boot after an update for action 42.\<close>

theorem init_pending_clears_then_flags_witness:
  "nvs_handle_valid (boot_state True [''update_flag'' \<mapsto> 1, ''action_id_val'' \<mapsto> 42])
   \<and> nvs_entries (boot_state True [''update_flag'' \<mapsto> 1, ''action_id_val'' \<mapsto> 42])
        ''update_flag'' = Some 1
   \<and> ota_action_id_str
        (snd (bytebeam_hal_init 0 (boot_state True [''update_flag'' \<mapsto> 1, ''action_id_val'' \<mapsto> 42])))
        = ''42''
   \<and> ota_update_completed
        (snd (bytebeam_hal_init 0 (boot_state True [''update_flag'' \<mapsto> 1, ''action_id_val'' \<mapsto> 42])))
        = 1"
proof -
  let ?st = "boot_state True [''update_flag'' \<mapsto> 1, ''action_id_val'' \<mapsto> 42]"
  have h1: "nvs_handle_valid ?st"
    by (simp add: boot_state_def)
  have h2: "nvs_entries ?st ''update_flag'' = Some 1"
    by (simp add: boot_state_def)
  have d: "sprintf_d 42 = ''42''"
    by code_simp
  have e: "nvs_entries ?st ''action_id_val'' = Some 42"
    by (simp add: boot_state_def)
  show ?thesis
    using h1 h2 init_pending_clears_then_flags [OF h1 h2, of 0]
    by (simp add: d e)
qed

text \<open>
  With the record \<open>{update_flag = 1, action_id_val = 42}\<close> the calls
  \<^verbatim>\<open>bytebeam_hal_init\<close> makes are, in order, the ones listed: the flag is cleared and
  committed, and no status is published, neither before the clearing nor after it.
\<close>

theorem init_pending_counterexample:
  "trace (snd (bytebeam_hal_init 0
       (boot_state True [''update_flag'' \<mapsto> 1, ''action_id_val'' \<mapsto> 42])))
     = [MqttClientInit, MqttClientStart, NvsOpen, NvsSet ''update_flag'' 0, NvsCommit, NvsClose]
   \<and> nvs_committed (snd (bytebeam_hal_init 0
       (boot_state True [''update_flag'' \<mapsto> 1, ''action_id_val'' \<mapsto> 42]))) ''update_flag''
     = Some 0"
  by (simp add: bytebeam_hal_init_def nvs_defs Let_def boot_state_def)


section \<open>The data handler, step by step\<close>

text \<open>
  What one \<^verbatim>\<open>HTTP_EVENT_ON_DATA\<close> event does to the state when the handler's behaviour
  is defined, what the other events do (nothing), and what a whole transfer does to the
  trace and to the cursor \<^verbatim>\<open>loop_var\<close>.
\<close>

lemma http_on_data_step:
  assumes "http_on_data len st = Some st'"
  shows "\<exists>dl pc. c_add (downloaded_data_len st) len = Some dl
           \<and> progress_percent dl (ota_img_data_len st) = Some pc
           \<and> st' = (if pc = loop_var st
                    then st\<lparr>downloaded_data_len := dl, update_progress_percent := pc,
                            loop_var := (if loop_var st = 100 then 0 else loop_var st + 5),
                            trace := trace st @ [progress_msg pc]\<rparr>
                    else st\<lparr>downloaded_data_len := dl, update_progress_percent := pc,
                            loop_var := (if loop_var st = 105 then 0 else loop_var st)\<rparr>)"
proof -
  from assms obtain dl where dl: "c_add (downloaded_data_len st) len = Some dl"
    by (cases "c_add (downloaded_data_len st) len") (simp_all add: http_on_data_def)
  from assms dl obtain pc where pc: "progress_percent dl (ota_img_data_len st) = Some pc"
    by (cases "progress_percent dl (ota_img_data_len st)") (simp_all add: http_on_data_def)
  show ?thesis
  proof (cases "pc = loop_var st")
    case True
    with assms dl pc obtain lv where lv: "c_add (loop_var st) 5 = Some lv"
      by (cases "c_add (loop_var st) 5") (simp_all add: http_on_data_def)
    then have lv': "lv = loop_var st + 5"
      by (simp add: c_add_def split: if_splits)
    from assms dl pc True lv lv' have "st' = st\<lparr>downloaded_data_len := dl, update_progress_percent := pc,
                            loop_var := (if loop_var st = 100 then 0 else loop_var st + 5),
                            trace := trace st @ [progress_msg pc]\<rparr>"
      by (auto simp: http_on_data_def emit_def progress_msg_def Let_def split: if_splits)
    with dl pc True show ?thesis by simp
  next
    case False
    with assms dl pc have "st' = st\<lparr>downloaded_data_len := dl, update_progress_percent := pc,
                            loop_var := (if loop_var st = 105 then 0 else loop_var st)\<rparr>"
      by (auto simp: http_on_data_def Let_def split: if_splits)
    with dl pc False show ?thesis by simp
  qed
qed


lemma http_event_handler_cases:
  "http_event_handler evt st =
     (if event_id evt = HTTP_EVENT_ON_DATA then http_on_data (data_len evt) st else Some st)"
  by (cases "event_id evt") (simp_all add: http_event_handler_def)

lemma test_event_handler_cases:
  "test_event_handler evt st =
     (if event_id evt = HTTP_EVENT_ON_DATA
      then map_option (\<lambda>n. st\<lparr>ota_img_data_len := n\<rparr>) (c_add (ota_img_data_len st) (data_len evt))
      else Some st)"
  by (cases "event_id evt") (simp_all add: test_event_handler_def split: option.splits)

lemma deliver_test_frame:
  "deliver test_event_handler evs st = Some st' \<Longrightarrow>
     st' = st\<lparr>ota_img_data_len := ota_img_data_len st'\<rparr>"
proof (induction evs arbitrary: st)
  case Nil
  then show ?case by simp
next
  case (Cons evt evs)
  then obtain st1 where a: "test_event_handler evt st = Some st1"
    and b: "deliver test_event_handler evs st1 = Some st'"
    by (auto split: option.splits)
  from a have "st1 = st\<lparr>ota_img_data_len := ota_img_data_len st1\<rparr>"
    by (cases "event_id evt = HTTP_EVENT_ON_DATA") (auto simp: test_event_handler_cases)
  moreover from Cons.IH [OF b] have "st' = st1\<lparr>ota_img_data_len := ota_img_data_len st'\<rparr>" .
  ultimately have "st' = st\<lparr>ota_img_data_len := ota_img_data_len st1,
      ota_img_data_len := ota_img_data_len st'\<rparr>"
    by simp
  then show ?case by simp
qed


lemma deliver_no_data:
  "\<not> list_ex (\<lambda>e. event_id e = HTTP_EVENT_ON_DATA) evs \<Longrightarrow> deliver test_event_handler evs st = Some st"
  by (induction evs arbitrary: st) (simp_all add: test_event_handler_cases)

lemma progress_percent_zero: "progress_percent dl 0 = None"
  by (simp add: progress_percent_def)

lemma http_on_data_zero: "ota_img_data_len st = 0 \<Longrightarrow> http_on_data len st = None"
  by (simp add: http_on_data_def progress_percent_zero split: option.splits)

lemma deliver_http_zero:
  "ota_img_data_len st = 0 \<Longrightarrow> list_ex (\<lambda>e. event_id e = HTTP_EVENT_ON_DATA) evs \<Longrightarrow>
     deliver http_event_handler evs st = None"
  by (induction evs arbitrary: st) (auto simp: http_event_handler_cases http_on_data_zero)

lemma deliver_http_trace:
  "deliver http_event_handler evs st = Some st' \<Longrightarrow>
     \<exists>ps. trace st' = trace st @ map progress_msg ps"
proof (induction evs arbitrary: st)
  case Nil
  then have "trace st' = trace st @ map progress_msg []" by simp
  then show ?case by blast
next
  case (Cons evt evs)
  then obtain st1 where a: "http_event_handler evt st = Some st1"
    and b: "deliver http_event_handler evs st1 = Some st'"
    by (auto split: option.splits)
  from Cons.IH [OF b] obtain ps where ps: "trace st' = trace st1 @ map progress_msg ps"
    by blast
  have "\<exists>qs. trace st1 = trace st @ map progress_msg qs"
  proof (cases "event_id evt = HTTP_EVENT_ON_DATA")
    case True
    with a have "http_on_data (data_len evt) st = Some st1"
      by (simp add: http_event_handler_cases)
    from http_on_data_step [OF this] obtain dl pc where
      "st1 = (if pc = loop_var st
                    then st\<lparr>downloaded_data_len := dl, update_progress_percent := pc,
                            loop_var := (if loop_var st = 100 then 0 else loop_var st + 5),
                            trace := trace st @ [progress_msg pc]\<rparr>
                    else st\<lparr>downloaded_data_len := dl, update_progress_percent := pc,
                            loop_var := (if loop_var st = 105 then 0 else loop_var st)\<rparr>)"
      by blast
    then have "trace st1 = trace st @ map progress_msg [pc] \<or> trace st1 = trace st @ map progress_msg []"
      by (simp split: if_splits)
    then show ?thesis by blast
  next
    case False
    with a have "trace st1 = trace st @ map progress_msg []"
      by (simp add: http_event_handler_cases)
    then show ?thesis by blast
  qed
  then obtain qs where "trace st1 = trace st @ map progress_msg qs" by blast
  with ps have "trace st' = trace st @ map progress_msg (qs @ ps)" by simp
  then show ?case by blast
qed



lemma cursor_next:
  assumes "cursor_ok c"
  shows "(if c = 100 then 0 else c + 5) = (c + 5) mod 105" and "cursor_ok ((c + 5) mod 105)"
    and "c mod 105 = c" and "c \<noteq> 105"
proof -
  from assms have r: "0 \<le> c" "c \<le> 100" and m: "c mod 5 = 0"
    by (simp_all add: cursor_ok_def)
  show "c mod 105 = c" using r by simp
  show "c \<noteq> 105" using r by simp
  show e: "(if c = 100 then 0 else c + 5) = (c + 5) mod 105"
  proof (cases "c = 100")
    case True
    then show ?thesis by simp
  next
    case False
    with r have "c + 5 < 105" "0 \<le> c + 5" by simp_all
    then have "(c + 5) mod 105 = c + 5" by simp
    with False show ?thesis by simp
  qed
  have "(c + 5) mod 5 = 0" using m by presburger
  moreover have "c \<noteq> 100 \<Longrightarrow> c + 5 \<le> 100" using r m by presburger
  ultimately show "cursor_ok ((c + 5) mod 105)"
    unfolding e [symmetric] using r by (simp add: cursor_ok_def)
qed


lemma http_on_data_cursor:
  assumes "http_on_data len st = Some st'" and "cursor_ok (loop_var st)"
  shows "(update_progress_percent st' = loop_var st \<and>
            trace st' = trace st @ [progress_msg (loop_var st)] \<and>
            loop_var st' = (loop_var st + 5) mod 105)
         \<or> (update_progress_percent st' \<noteq> loop_var st \<and>
            trace st' = trace st \<and> loop_var st' = loop_var st)"
proof -
  from http_on_data_step [OF assms(1)] obtain dl pc where
    st': "st' = (if pc = loop_var st
                    then st\<lparr>downloaded_data_len := dl, update_progress_percent := pc,
                            loop_var := (if loop_var st = 100 then 0 else loop_var st + 5),
                            trace := trace st @ [progress_msg pc]\<rparr>
                    else st\<lparr>downloaded_data_len := dl, update_progress_percent := pc,
                            loop_var := (if loop_var st = 105 then 0 else loop_var st)\<rparr>)"
    by blast
  note cn = cursor_next [OF assms(2)]
  show ?thesis
  proof (cases "pc = loop_var st")
    case True
    with st' have "update_progress_percent st' = loop_var st"
      and "trace st' = trace st @ [progress_msg (loop_var st)]"
      and "loop_var st' = (if loop_var st = 100 then 0 else loop_var st + 5)"
      by simp_all
    with cn(1) show ?thesis by simp
  next
    case False
    with st' cn(4) have "update_progress_percent st' \<noteq> loop_var st"
      and "trace st' = trace st" and "loop_var st' = loop_var st"
      by simp_all
    then show ?thesis by simp
  qed
qed


lemma deliver_http_cursor:
  "deliver http_event_handler evs st = Some st' \<Longrightarrow> cursor_ok (loop_var st) \<Longrightarrow>
     \<exists>n. trace st' = trace st @ map (\<lambda>i. progress_msg ((loop_var st + 5 * int i) mod 105)) [0..<n]
        \<and> loop_var st' = (loop_var st + 5 * int n) mod 105"
proof (induction evs arbitrary: st)
  case Nil
  then have "st' = st" by simp
  then have "trace st' = trace st @ map (\<lambda>i. progress_msg ((loop_var st + 5 * int i) mod 105)) [0..<0]
        \<and> loop_var st' = (loop_var st + 5 * int 0) mod 105"
    using cursor_next(3) [OF Nil(2)] by simp
  then show ?case by blast
next
  case (Cons evt evs)
  let ?c = "loop_var st"
  from Cons.prems obtain st1 where a: "http_event_handler evt st = Some st1"
    and b: "deliver http_event_handler evs st1 = Some st'"
    by (auto split: option.splits)
  have step: "(trace st1 = trace st @ [progress_msg ?c] \<and> loop_var st1 = (?c + 5) mod 105)
      \<or> (trace st1 = trace st \<and> loop_var st1 = ?c)"
  proof (cases "event_id evt = HTTP_EVENT_ON_DATA")
    case True
    with a have "http_on_data (data_len evt) st = Some st1"
      by (simp add: http_event_handler_cases)
    from http_on_data_cursor [OF this Cons.prems(2)] show ?thesis by blast
  next
    case False
    with a show ?thesis by (simp add: http_event_handler_cases)
  qed
  from step show ?case
  proof
    assume pub: "trace st1 = trace st @ [progress_msg ?c] \<and> loop_var st1 = (?c + 5) mod 105"
    then have ok1: "cursor_ok (loop_var st1)"
      using cursor_next(2) [OF Cons.prems(2)] by simp
    from Cons.IH [OF b ok1] obtain n where
      n: "trace st' = trace st1 @ map (\<lambda>i. progress_msg ((loop_var st1 + 5 * int i) mod 105)) [0..<n]"
      and l: "loop_var st' = (loop_var st1 + 5 * int n) mod 105"
      by blast
    have shift: "(loop_var st1 + 5 * int i) mod 105 = (?c + 5 * int (Suc i)) mod 105" for i
    proof -
      have "((?c + 5) mod 105 + 5 * int i) mod 105 = (?c + 5 + 5 * int i) mod 105"
        by (rule mod_add_left_eq)
      moreover have "?c + 5 + 5 * int i = ?c + 5 * int (Suc i)"
        by simp
      ultimately show ?thesis using pub by simp
    qed
    have c0: "(?c + 5 * int 0) mod 105 = ?c"
      using cursor_next(3) [OF Cons.prems(2)] by simp
    have "map (\<lambda>i. progress_msg ((?c + 5 * int i) mod 105)) [0..<Suc n]
        = progress_msg ((?c + 5 * int 0) mod 105)
          # map (\<lambda>i. progress_msg ((?c + 5 * int (Suc i)) mod 105)) [0..<n]"
      by (simp only: map_upt_Suc)
    also have "\<dots> = progress_msg ?c
          # map (\<lambda>i. progress_msg ((loop_var st1 + 5 * int i) mod 105)) [0..<n]"
      by (simp only: c0 shift)
    finally have "trace st' = trace st @ map (\<lambda>i. progress_msg ((?c + 5 * int i) mod 105)) [0..<Suc n]"
      using n pub by simp
    moreover have "loop_var st' = (?c + 5 * int (Suc n)) mod 105"
      using l shift [of n] by simp
    ultimately show ?thesis by blast
  next
    assume same: "trace st1 = trace st \<and> loop_var st1 = ?c"
    then have ok1: "cursor_ok (loop_var st1)"
      using Cons.prems(2) by simp
    from Cons.IH [OF b ok1] same show ?thesis by simp
  qed
qed

lemma deliver_test_keeps:
  assumes "deliver test_event_handler evs st = Some st'"
  shows "trace st' = trace st" and "loop_var st' = loop_var st"
proof -
  from deliver_test_frame [OF assms] obtain n where "st' = st\<lparr>ota_img_data_len := n\<rparr>" ..
  then show "trace st' = trace st" and "loop_var st' = loop_var st"
    by simp_all
qed


lemma cursor_ok_steps:
  "cursor_ok c \<Longrightarrow> cursor_ok ((c + 5 * int n) mod 105)"
proof (induction n)
  case 0
  then show ?case using cursor_next(3) [of c] by simp
next
  case (Suc n)
  have "((c + 5 * int n) mod 105 + 5) mod 105 = (c + 5 * int n + 5) mod 105"
    by (rule mod_add_left_eq)
  moreover have "c + 5 * int n + 5 = c + 5 * int (Suc n)"
    by simp
  ultimately show ?case
    using cursor_next(2) [OF Suc.IH [OF Suc.prems]] by simp
qed


lemma deliver_test_total:
  "deliver test_event_handler evs st = Some st' \<Longrightarrow>
     ota_img_data_len st' = ota_img_data_len st + data_total evs"
proof (induction evs arbitrary: st)
  case Nil
  then show ?case by simp
next
  case (Cons evt evs)
  from Cons.prems obtain st1 where a: "test_event_handler evt st = Some st1"
    and b: "deliver test_event_handler evs st1 = Some st'"
    by (auto split: option.splits)
  from a have "ota_img_data_len st1 = ota_img_data_len st
      + (if event_id evt = HTTP_EVENT_ON_DATA then data_len evt else 0)"
    by (cases "event_id evt = HTTP_EVENT_ON_DATA")
       (auto simp: test_event_handler_cases c_add_def split: if_splits)
  with Cons.IH [OF b] show ?case
    by simp
qed

lemma http_on_data_frame:
  assumes "http_on_data len st = Some st'"
  shows "downloaded_data_len st' = downloaded_data_len st + len"
    and "ota_img_data_len st' = ota_img_data_len st"
    and "ota_update_completed st' = ota_update_completed st"
proof -
  from http_on_data_step [OF assms] obtain d pc where
    d: "c_add (downloaded_data_len st) len = Some d"
    and st': "st' = (if pc = loop_var st
                    then st\<lparr>downloaded_data_len := d, update_progress_percent := pc,
                            loop_var := (if loop_var st = 100 then 0 else loop_var st + 5),
                            trace := trace st @ [progress_msg pc]\<rparr>
                    else st\<lparr>downloaded_data_len := d, update_progress_percent := pc,
                            loop_var := (if loop_var st = 105 then 0 else loop_var st)\<rparr>)"
    by blast
  from d have "d = downloaded_data_len st + len"
    by (simp add: c_add_def split: if_splits)
  with st' show "downloaded_data_len st' = downloaded_data_len st + len"
    by (simp split: if_splits)
  from st' show "ota_img_data_len st' = ota_img_data_len st"
    and "ota_update_completed st' = ota_update_completed st"
    by (simp_all split: if_splits)
qed

lemma deliver_http_frame:
  "deliver http_event_handler evs st = Some st' \<Longrightarrow>
     downloaded_data_len st' = downloaded_data_len st + data_total evs
     \<and> ota_img_data_len st' = ota_img_data_len st
     \<and> ota_update_completed st' = ota_update_completed st"
proof (induction evs arbitrary: st)
  case Nil
  then show ?case by simp
next
  case (Cons evt evs)
  from Cons.prems obtain st1 where a: "http_event_handler evt st = Some st1"
    and b: "deliver http_event_handler evs st1 = Some st'"
    by (auto split: option.splits)
  have "downloaded_data_len st1 = downloaded_data_len st
        + (if event_id evt = HTTP_EVENT_ON_DATA then data_len evt else 0)
      \<and> ota_img_data_len st1 = ota_img_data_len st
      \<and> ota_update_completed st1 = ota_update_completed st"
  proof (cases "event_id evt = HTTP_EVENT_ON_DATA")
    case True
    with a have "http_on_data (data_len evt) st = Some st1"
      by (simp add: http_event_handler_cases)
    from http_on_data_frame [OF this] True show ?thesis
      by simp
  next
    case False
    with a show ?thesis
      by (simp add: http_event_handler_cases)
  qed
  with Cons.IH [OF b] show ?case
    by simp
qed

lemma deliver_http_no_data:
  "\<not> list_ex (\<lambda>e. event_id e = HTTP_EVENT_ON_DATA) evs \<Longrightarrow>
     deliver http_event_handler evs st = Some st"
  by (induction evs arbitrary: st) (simp_all add: http_event_handler_cases)

lemma ota_reset_absorbs:
  "ota_reset (st\<lparr>ota_img_data_len := a, update_progress_percent := b, downloaded_data_len := c\<rparr>)
     = ota_reset st"
  by (simp add: ota_reset_def)

lemma hal_ota_phases:
  assumes "bytebeam_hal_ota probe dl st = Some (rc, st')"
  obtains st1 where
    "deliver test_event_handler (events probe) (emit HttpClientPerform (ota_reset st)) = Some st1"
    and "deliver http_event_handler (events dl) (emit HttpsOta st1) = Some st'"
    and "rc = result dl"
  using assms
  by (auto simp: bytebeam_hal_ota_def ota_probe_def ota_download_def split: option.splits)

lemma http_on_data_percent:
  assumes "http_on_data len st = Some st'"
  shows "progress_percent (downloaded_data_len st') (ota_img_data_len st')
           = Some (update_progress_percent st')"
proof -
  from http_on_data_step [OF assms] obtain d pc where
    pc: "progress_percent d (ota_img_data_len st) = Some pc"
    and st': "st' = (if pc = loop_var st
                    then st\<lparr>downloaded_data_len := d, update_progress_percent := pc,
                            loop_var := (if loop_var st = 100 then 0 else loop_var st + 5),
                            trace := trace st @ [progress_msg pc]\<rparr>
                    else st\<lparr>downloaded_data_len := d, update_progress_percent := pc,
                            loop_var := (if loop_var st = 105 then 0 else loop_var st)\<rparr>)"
    by blast
  from st' have "downloaded_data_len st' = d" "update_progress_percent st' = pc"
    "ota_img_data_len st' = ota_img_data_len st"
    by (simp_all split: if_splits)
  with pc show ?thesis
    by simp
qed

lemma deliver_http_last_percent_gen:
  "deliver http_event_handler evs st = Some st' \<Longrightarrow>
     list_ex (\<lambda>e. event_id e = HTTP_EVENT_ON_DATA) evs
       \<or> progress_percent (downloaded_data_len st) (ota_img_data_len st)
            = Some (update_progress_percent st) \<Longrightarrow>
     progress_percent (downloaded_data_len st') (ota_img_data_len st')
       = Some (update_progress_percent st')"
proof (induction evs arbitrary: st)
  case Nil
  then show ?case by simp
next
  case (Cons evt evs)
  from Cons.prems(1) obtain st1 where a: "http_event_handler evt st = Some st1"
    and b: "deliver http_event_handler evs st1 = Some st'"
    by (auto split: option.splits)
  show ?case
  proof (cases "event_id evt = HTTP_EVENT_ON_DATA")
    case True
    with a have "http_on_data (data_len evt) st = Some st1"
      by (simp add: http_event_handler_cases)
    from http_on_data_percent [OF this]
    have "list_ex (\<lambda>e. event_id e = HTTP_EVENT_ON_DATA) evs
       \<or> progress_percent (downloaded_data_len st1) (ota_img_data_len st1)
            = Some (update_progress_percent st1)"
      by simp
    from Cons.IH [OF b this] show ?thesis .
  next
    case False
    with a have "st1 = st"
      by (simp add: http_event_handler_cases)
    with Cons.prems(2) False
    have "list_ex (\<lambda>e. event_id e = HTTP_EVENT_ON_DATA) evs
       \<or> progress_percent (downloaded_data_len st1) (ota_img_data_len st1)
            = Some (update_progress_percent st1)"
      by simp
    from Cons.IH [OF b this] show ?thesis .
  qed
qed

lemma deliver_http_last_percent:
  assumes "deliver http_event_handler evs st = Some st'"
    and "list_ex (\<lambda>e. event_id e = HTTP_EVENT_ON_DATA) evs"
  shows "progress_percent (downloaded_data_len st') (ota_img_data_len st')
       = Some (update_progress_percent st')"
  using deliver_http_last_percent_gen [OF assms(1)] assms(2) by blast

section \<open>Progress reporting during a download\<close>

text \<open>
  Claim C1, as the code has it. The guard of line 67 is an equality: with the cursor
  \<^verbatim>\<open>loop_var\<close> at a multiple of 5 between 0 and 100, a data event publishes if and only
  if the newly computed percentage is equal to the cursor; the value published is the
  cursor, and the cursor then moves on by 5 (from 100 back to 0). So the messages of one
  download are the consecutive multiples of 5 that start at the cursor, each once and in
  this order; a percentage that passes the cursor without hitting it publishes nothing.
\<close>

theorem publish_iff_percent_equals_cursor:
  assumes "cursor_ok (loop_var st)"
  shows "(http_on_data len st = Some st1 \<longrightarrow>
            (if update_progress_percent st1 = loop_var st
             then trace st1 = trace st @ [progress_msg (loop_var st)]
                  \<and> loop_var st1 = (loop_var st + 5) mod 105
             else trace st1 = trace st \<and> loop_var st1 = loop_var st))
       \<and> (deliver http_event_handler evs st = Some st' \<longrightarrow>
            (\<exists>n. trace st' = trace st
                     @ map (\<lambda>i. progress_msg ((loop_var st + 5 * int i) mod 105)) [0..<n]
                 \<and> loop_var st' = (loop_var st + 5 * int n) mod 105))"
proof (intro conjI impI)
  assume "http_on_data len st = Some st1"
  from http_on_data_cursor [OF this assms]
  show "if update_progress_percent st1 = loop_var st
        then trace st1 = trace st @ [progress_msg (loop_var st)]
             \<and> loop_var st1 = (loop_var st + 5) mod 105
        else trace st1 = trace st \<and> loop_var st1 = loop_var st"
    by auto
next
  assume "deliver http_event_handler evs st = Some st'"
  from deliver_http_cursor [OF this assms]
  show "\<exists>n. trace st' = trace st
               @ map (\<lambda>i. progress_msg ((loop_var st + 5 * int i) mod 105)) [0..<n]
           \<and> loop_var st' = (loop_var st + 5 * int n) mod 105" .
qed

text \<open>
  A download of 200 bytes whose first event brings one byte: 0 percent, equal to the
  cursor, is published and the cursor moves to 5.
\<close>

theorem publish_iff_percent_equals_cursor_witness:
  "cursor_ok (loop_var ((boot_state True Map.empty)\<lparr>ota_img_data_len := 200\<rparr>))
   \<and> map_option update_progress_percent
        (http_on_data 1 ((boot_state True Map.empty)\<lparr>ota_img_data_len := 200\<rparr>)) = Some 0
   \<and> map_option trace
        (http_on_data 1 ((boot_state True Map.empty)\<lparr>ota_img_data_len := 200\<rparr>))
        = Some [Publish 0 ''Progress'' ''Success'']
   \<and> map_option loop_var
        (http_on_data 1 ((boot_state True Map.empty)\<lparr>ota_img_data_len := 200\<rparr>)) = Some 5"
proof -
  let ?st = "(boot_state True Map.empty)\<lparr>ota_img_data_len := 200\<rparr>"
  have ok: "cursor_ok (loop_var ?st)"
    by (simp add: boot_state_def cursor_ok_def)
  have pc: "map_option update_progress_percent (http_on_data 1 ?st) = Some 0"
    by code_simp
  then obtain st1 where st1: "http_on_data 1 ?st = Some st1"
    and p: "update_progress_percent st1 = 0"
    by auto
  have l: "loop_var ?st = 0" and t: "trace ?st = []"
    by (simp_all add: boot_state_def)
  from publish_iff_percent_equals_cursor [OF ok, of 1 st1 "[]" ?st] st1 p l t
  have "trace st1 = [progress_msg 0] \<and> loop_var st1 = 5"
    by simp
  with ok pc st1 show ?thesis
    by (simp add: progress_msg_def)
qed

text \<open>
  Total size 1000 in chunks of 137 bytes. The percentages are 13, 27, 41, 54, 68, 82, 95
  and 100; none is equal to the cursor, which stays at 0, and nothing is published.
\<close>

theorem chunks_of_137_counterexample:
  "progress_percent 137 1000 = Some 13 \<and> progress_percent 274 1000 = Some 27
   \<and> progress_percent 411 1000 = Some 41 \<and> progress_percent 548 1000 = Some 54
   \<and> progress_percent 685 1000 = Some 68 \<and> progress_percent 822 1000 = Some 82
   \<and> progress_percent 959 1000 = Some 95 \<and> progress_percent 1000 1000 = Some 100
   \<and> map_option (\<lambda>(rc, st). (rc, trace st, loop_var st))
       (bytebeam_hal_ota \<lparr>events = [data_event 1000], result = ESP_OK\<rparr>
          \<lparr>events = map data_event [137, 137, 137, 137, 137, 137, 137, 41], result = ESP_OK\<rparr>
          (boot_state True Map.empty))
     = Some (0, [HttpClientPerform, HttpsOta], 0)"
  by code_simp

section \<open>The size-discovery pass and the download\<close>

text \<open>
  Claim C3, as the code has it. The return code of the size-discovery transfer is used
  for a log line only: \<^verbatim>\<open>bytebeam_hal_ota\<close> behaves the same whatever that code is, always
  goes on to \<^verbatim>\<open>esp_https_ota\<close>, returns the code of the download, and publishes nothing
  but the progress messages of the data handler.
\<close>

theorem ota_download_follows_any_probe:
  "bytebeam_hal_ota (probe\<lparr>result := r\<rparr>) dl st = bytebeam_hal_ota probe dl st
   \<and> (bytebeam_hal_ota probe dl st = Some (rc, st') \<longrightarrow>
        rc = result dl
        \<and> (\<exists>ps. trace st' = trace st @ [HttpClientPerform, HttpsOta] @ map progress_msg ps))"
proof (rule conjI)
  show "bytebeam_hal_ota (probe\<lparr>result := r\<rparr>) dl st = bytebeam_hal_ota probe dl st"
    by (simp add: bytebeam_hal_ota_def ota_probe_def)
next
  show "bytebeam_hal_ota probe dl st = Some (rc, st') \<longrightarrow>
        rc = result dl
        \<and> (\<exists>ps. trace st' = trace st @ [HttpClientPerform, HttpsOta] @ map progress_msg ps)"
  proof (rule impI)
    assume run: "bytebeam_hal_ota probe dl st = Some (rc, st')"
    then obtain st1 where p: "ota_probe probe (ota_reset st) = Some st1"
      and d: "ota_download dl st1 = Some (rc, st')"
      by (auto simp: bytebeam_hal_ota_def split: option.splits)
    from d obtain st2 where
      d2: "deliver http_event_handler (events dl) (emit HttpsOta st1) = Some st2"
      and r: "rc = result dl" "st' = st2"
      by (auto simp: ota_download_def split: option.splits)
    from deliver_test_keeps(1) [OF p [unfolded ota_probe_def]]
    have "trace st1 = trace st @ [HttpClientPerform]"
      by (simp add: emit_def ota_reset_def)
    moreover from deliver_http_trace [OF d2] obtain ps where
      "trace st2 = trace (emit HttpsOta st1) @ map progress_msg ps"
      by blast
    ultimately have "trace st' = trace st @ [HttpClientPerform, HttpsOta] @ map progress_msg ps"
      using r by (simp add: emit_def)
    then show "rc = result dl
      \<and> (\<exists>ps. trace st' = trace st @ [HttpClientPerform, HttpsOta] @ map progress_msg ps)"
      using r by blast
  qed
qed

text \<open>A size-discovery transfer that fails, followed by a download that succeeds.\<close>

theorem ota_download_follows_any_probe_witness:
  "map_option fst
     (bytebeam_hal_ota \<lparr>events = [data_event 500], result = ESP_FAIL\<rparr>
        \<lparr>events = [data_event 500], result = ESP_OK\<rparr> (boot_state True Map.empty))
     = Some ESP_OK
   \<and> bytebeam_hal_ota (\<lparr>events = [data_event 500], result = ESP_FAIL\<rparr>\<lparr>result := ESP_OK\<rparr>)
        \<lparr>events = [data_event 500], result = ESP_OK\<rparr> (boot_state True Map.empty)
     = bytebeam_hal_ota \<lparr>events = [data_event 500], result = ESP_FAIL\<rparr>
        \<lparr>events = [data_event 500], result = ESP_OK\<rparr> (boot_state True Map.empty)"
proof -
  let ?p = "\<lparr>events = [data_event 500], result = ESP_FAIL\<rparr>"
  let ?d = "\<lparr>events = [data_event 500], result = ESP_OK\<rparr>"
  let ?st = "boot_state True Map.empty"
  have "map_option (\<lambda>x. ()) (bytebeam_hal_ota ?p ?d ?st) = Some ()"
    by code_simp
  then obtain rc st' where run: "bytebeam_hal_ota ?p ?d ?st = Some (rc, st')"
    by auto
  from ota_download_follows_any_probe [where probe = ?p and r = ESP_OK and dl = ?d
      and st = ?st and rc = rc and st' = st'] run
  show ?thesis by simp
qed

text \<open>
  The size-discovery transfer delivers 500 bytes and then fails. The download is started
  all the same, delivers the image and returns \<^verbatim>\<open>ESP_OK\<close>, which \<^verbatim>\<open>bytebeam_hal_ota\<close>
  returns; no failure is reported.
\<close>

theorem failed_probe_counterexample:
  "map_option (\<lambda>(rc, st). (rc, trace st))
     (bytebeam_hal_ota
        \<lparr>events = [data_event 500, \<lparr>event_id = HTTP_EVENT_ERROR, data_len = 0\<rparr>],
         result = ESP_FAIL\<rparr>
        \<lparr>events = map data_event [500, 500], result = ESP_OK\<rparr>
        (boot_state True Map.empty))
   = Some (ESP_OK, [HttpClientPerform, HttpsOta])"
  by code_simp

section \<open>The confirmation of an update\<close>



section \<open>What a new attempt resets\<close>

text \<open>
  Claim C10. Every call of \<^verbatim>\<open>bytebeam_hal_ota\<close> starts by setting \<^verbatim>\<open>ota_img_data_len\<close>,
  \<^verbatim>\<open>update_progress_percent\<close> and \<^verbatim>\<open>downloaded_data_len\<close> to 0: the call does the same
  whatever values the three counters held before, and at its end \<^verbatim>\<open>ota_img_data_len\<close> and
  \<^verbatim>\<open>downloaded_data_len\<close> are the byte counts of this call's two transfers alone, and
  \<^verbatim>\<open>update_progress_percent\<close> is 0 if the download brought no data. The cursor
  \<^verbatim>\<open>loop_var\<close> is not reset: the download starts with the cursor the previous attempt
  left, so the messages of the call are the multiples of 5 that follow that cursor, and a
  download without data leaves the cursor as it was. The data handler takes a cursor
  other than 0 back to 0 only in the step that publishes at 100 (the cursor reaches 105
  there).
\<close>

theorem ota_reset_leaves_cursor:
  "bytebeam_hal_ota probe dl
      (st\<lparr>ota_img_data_len := a, update_progress_percent := b, downloaded_data_len := c\<rparr>)
     = bytebeam_hal_ota probe dl st
   \<and> (bytebeam_hal_ota probe dl st = Some (rc, st') \<longrightarrow>
        ota_img_data_len st' = data_total (events probe)
        \<and> downloaded_data_len st' = data_total (events dl)
        \<and> (if list_ex (\<lambda>e. event_id e = HTTP_EVENT_ON_DATA) (events dl)
            then progress_percent (downloaded_data_len st') (ota_img_data_len st')
                   = Some (update_progress_percent st')
            else update_progress_percent st' = 0 \<and> loop_var st' = loop_var st))
   \<and> (cursor_ok (loop_var st) \<and> bytebeam_hal_ota probe dl st = Some (rc, st') \<longrightarrow>
        (\<exists>n. trace st' = trace st @ [HttpClientPerform, HttpsOta]
                  @ map (\<lambda>i. progress_msg ((loop_var st + 5 * int i) mod 105)) [0..<n]
             \<and> loop_var st' = (loop_var st + 5 * int n) mod 105)
        \<and> cursor_ok (loop_var st'))
   \<and> (cursor_ok (loop_var st) \<and> loop_var st \<noteq> 0 \<and> http_on_data len st = Some st2
        \<and> loop_var st2 = 0 \<longrightarrow>
          loop_var st = 100 \<and> update_progress_percent st2 = 100
          \<and> trace st2 = trace st @ [Publish 100 ''Complete'' ''Success''])"
proof (intro conjI)
  show "bytebeam_hal_ota probe dl
      (st\<lparr>ota_img_data_len := a, update_progress_percent := b, downloaded_data_len := c\<rparr>)
     = bytebeam_hal_ota probe dl st"
    by (simp only: bytebeam_hal_ota_def ota_reset_absorbs)
next
  show "bytebeam_hal_ota probe dl st = Some (rc, st') \<longrightarrow>
        ota_img_data_len st' = data_total (events probe)
        \<and> downloaded_data_len st' = data_total (events dl)
        \<and> (if list_ex (\<lambda>e. event_id e = HTTP_EVENT_ON_DATA) (events dl)
            then progress_percent (downloaded_data_len st') (ota_img_data_len st')
                   = Some (update_progress_percent st')
            else update_progress_percent st' = 0 \<and> loop_var st' = loop_var st)"
  proof (rule impI)
    assume "bytebeam_hal_ota probe dl st = Some (rc, st')"
    then obtain st1 where
      p: "deliver test_event_handler (events probe) (emit HttpClientPerform (ota_reset st)) = Some st1"
      and d: "deliver http_event_handler (events dl) (emit HttpsOta st1) = Some st'"
      by (rule hal_ota_phases)
    from deliver_test_frame [OF p] obtain n where
      st1: "st1 = (emit HttpClientPerform (ota_reset st))\<lparr>ota_img_data_len := n\<rparr>" ..
    from deliver_test_total [OF p] have t1: "ota_img_data_len st1 = data_total (events probe)"
      by (simp add: emit_def ota_reset_def)
    from st1 have z: "downloaded_data_len st1 = 0" "update_progress_percent st1 = 0"
      "loop_var st1 = loop_var st"
      by (simp_all add: emit_def ota_reset_def)
    from deliver_http_frame [OF d] t1 z
    have tot: "ota_img_data_len st' = data_total (events probe)"
      "downloaded_data_len st' = data_total (events dl)"
      by (simp_all add: emit_def)
    have last: "if list_ex (\<lambda>e. event_id e = HTTP_EVENT_ON_DATA) (events dl)
            then progress_percent (downloaded_data_len st') (ota_img_data_len st')
                   = Some (update_progress_percent st')
            else update_progress_percent st' = 0 \<and> loop_var st' = loop_var st"
    proof (cases "list_ex (\<lambda>e. event_id e = HTTP_EVENT_ON_DATA) (events dl)")
      case True
      from deliver_http_last_percent [OF d True] show ?thesis
        using True by simp
    next
      case False
      from deliver_http_no_data [OF False, of "emit HttpsOta st1"] d
      have "st' = emit HttpsOta st1"
        by simp
      with z False show ?thesis
        by (simp add: emit_def)
    qed
    from tot last show "ota_img_data_len st' = data_total (events probe)
        \<and> downloaded_data_len st' = data_total (events dl)
        \<and> (if list_ex (\<lambda>e. event_id e = HTTP_EVENT_ON_DATA) (events dl)
            then progress_percent (downloaded_data_len st') (ota_img_data_len st')
                   = Some (update_progress_percent st')
            else update_progress_percent st' = 0 \<and> loop_var st' = loop_var st)"
      by blast
  qed
next
  show "cursor_ok (loop_var st) \<and> bytebeam_hal_ota probe dl st = Some (rc, st') \<longrightarrow>
        (\<exists>n. trace st' = trace st @ [HttpClientPerform, HttpsOta]
                  @ map (\<lambda>i. progress_msg ((loop_var st + 5 * int i) mod 105)) [0..<n]
             \<and> loop_var st' = (loop_var st + 5 * int n) mod 105)
        \<and> cursor_ok (loop_var st')"
  proof (rule impI)
    assume a: "cursor_ok (loop_var st) \<and> bytebeam_hal_ota probe dl st = Some (rc, st')"
    then have run: "bytebeam_hal_ota probe dl st = Some (rc, st')"
      by simp
    from run obtain st1 where
      p: "deliver test_event_handler (events probe) (emit HttpClientPerform (ota_reset st)) = Some st1"
      and d: "deliver http_event_handler (events dl) (emit HttpsOta st1) = Some st'"
      by (rule hal_ota_phases)
    from deliver_test_keeps [OF p]
    have k: "loop_var (emit HttpsOta st1) = loop_var st"
      "trace (emit HttpsOta st1) = trace st @ [HttpClientPerform, HttpsOta]"
      by (simp_all add: emit_def ota_reset_def)
    with a have ok: "cursor_ok (loop_var (emit HttpsOta st1))"
      by simp
    from deliver_http_cursor [OF d ok] obtain n where
      n: "trace st' = trace (emit HttpsOta st1)
            @ map (\<lambda>i. progress_msg ((loop_var (emit HttpsOta st1) + 5 * int i) mod 105)) [0..<n]"
      "loop_var st' = (loop_var (emit HttpsOta st1) + 5 * int n) mod 105"
      by blast
    from n k have "trace st' = trace st @ [HttpClientPerform, HttpsOta]
                  @ map (\<lambda>i. progress_msg ((loop_var st + 5 * int i) mod 105)) [0..<n]
             \<and> loop_var st' = (loop_var st + 5 * int n) mod 105"
      by simp
    moreover from n(2) cursor_ok_steps [OF ok, of n] have "cursor_ok (loop_var st')"
      by simp
    ultimately show "(\<exists>n. trace st' = trace st @ [HttpClientPerform, HttpsOta]
                  @ map (\<lambda>i. progress_msg ((loop_var st + 5 * int i) mod 105)) [0..<n]
             \<and> loop_var st' = (loop_var st + 5 * int n) mod 105)
        \<and> cursor_ok (loop_var st')"
      by blast
  qed
next
  show "cursor_ok (loop_var st) \<and> loop_var st \<noteq> 0 \<and> http_on_data len st = Some st2
        \<and> loop_var st2 = 0 \<longrightarrow>
          loop_var st = 100 \<and> update_progress_percent st2 = 100
          \<and> trace st2 = trace st @ [Publish 100 ''Complete'' ''Success'']"
  proof (rule impI)
    assume a: "cursor_ok (loop_var st) \<and> loop_var st \<noteq> 0 \<and> http_on_data len st = Some st2
        \<and> loop_var st2 = 0"
    then have ok: "cursor_ok (loop_var st)" and nz: "loop_var st \<noteq> 0"
      and s: "http_on_data len st = Some st2" and z: "loop_var st2 = 0"
      by simp_all
    from http_on_data_cursor [OF s ok] nz z
    have pub: "update_progress_percent st2 = loop_var st"
      "trace st2 = trace st @ [progress_msg (loop_var st)]"
      "(loop_var st + 5) mod 105 = 0"
      by auto
    from cursor_next(1) [OF ok] pub(3) have "loop_var st = 100"
      using ok by (auto simp: cursor_ok_def split: if_splits)
    with pub show "loop_var st = 100 \<and> update_progress_percent st2 = 100
          \<and> trace st2 = trace st @ [Publish 100 ''Complete'' ''Success'']"
      by (simp add: progress_msg_def)
  qed
qed

text \<open>
  A first attempt on an image of 1000 bytes receives 1, 49 and 50 bytes, publishes 0, 5
  and 10 percent and fails with 100 bytes counted and the cursor at 15. The second
  attempt, made in the state the first one left, receives 150 bytes: it counts 150 bytes,
  not 250, and its first message is 15 percent, the cursor of the first attempt.
\<close>

theorem ota_reset_leaves_cursor_witness:
  "map_option (\<lambda>(rc, s). (rc, ota_img_data_len s, update_progress_percent s,
                           downloaded_data_len s, loop_var s))
     (bytebeam_hal_ota \<lparr>events = [data_event 1000], result = ESP_OK\<rparr>
        \<lparr>events = map data_event [1, 49, 50], result = ESP_FAIL\<rparr> (boot_state True Map.empty))
     = Some (ESP_FAIL, 1000, 10, 100, 15)
   \<and> map_option (\<lambda>(rc, s). (rc, ota_img_data_len s, update_progress_percent s,
                             downloaded_data_len s, loop_var s, trace s))
       (Option.bind
          (bytebeam_hal_ota \<lparr>events = [data_event 1000], result = ESP_OK\<rparr>
             \<lparr>events = map data_event [1, 49, 50], result = ESP_FAIL\<rparr>
             (boot_state True Map.empty))
          (\<lambda>(rc, s). bytebeam_hal_ota \<lparr>events = [data_event 1000], result = ESP_OK\<rparr>
             \<lparr>events = [data_event 150], result = ESP_OK\<rparr> s))
     = Some (ESP_OK, 1000, 15, 150, 20,
         [HttpClientPerform, HttpsOta, Publish 0 ''Progress'' ''Success'',
          Publish 5 ''Progress'' ''Success'', Publish 10 ''Progress'' ''Success'',
          HttpClientPerform, HttpsOta, Publish 15 ''Progress'' ''Success''])"
proof -
  let ?p = "\<lparr>events = [data_event 1000], result = ESP_OK\<rparr>"
  let ?d1 = "\<lparr>events = map data_event [1, 49, 50], result = ESP_FAIL\<rparr>"
  let ?d2 = "\<lparr>events = [data_event 150], result = ESP_OK\<rparr>"
  let ?st = "boot_state True Map.empty"
  have first: "map_option (\<lambda>(rc, s). (rc, ota_img_data_len s, update_progress_percent s,
                           downloaded_data_len s, loop_var s)) (bytebeam_hal_ota ?p ?d1 ?st)
      = Some (ESP_FAIL, 1000, 10, 100, 15)"
    by code_simp
  then obtain st1 where s1: "bytebeam_hal_ota ?p ?d1 ?st = Some (ESP_FAIL, st1)"
    and l1: "loop_var st1 = 15"
    by auto
  have second: "map_option (\<lambda>(rc, s). (rc, update_progress_percent s, loop_var s, trace s))
       (Option.bind (bytebeam_hal_ota ?p ?d1 ?st) (\<lambda>(rc, s). bytebeam_hal_ota ?p ?d2 s))
      = Some (ESP_OK, 15, 20,
         [HttpClientPerform, HttpsOta, Publish 0 ''Progress'' ''Success'',
          Publish 5 ''Progress'' ''Success'', Publish 10 ''Progress'' ''Success'',
          HttpClientPerform, HttpsOta, Publish 15 ''Progress'' ''Success''])"
    by code_simp
  with s1 obtain st2 where s2: "bytebeam_hal_ota ?p ?d2 st1 = Some (ESP_OK, st2)"
    and v2: "update_progress_percent st2 = 15" "loop_var st2 = 20"
      "trace st2 = [HttpClientPerform, HttpsOta, Publish 0 ''Progress'' ''Success'',
          Publish 5 ''Progress'' ''Success'', Publish 10 ''Progress'' ''Success'',
          HttpClientPerform, HttpsOta, Publish 15 ''Progress'' ''Success'']"
    by auto
  have t: "data_total (events ?p) = 1000" "data_total (events ?d2) = 150"
    by (simp_all add: data_event_def)
  from ota_reset_leaves_cursor [where probe = ?p and dl = ?d2 and st = st1 and rc = ESP_OK
      and st' = st2] s2 t
  have c2: "ota_img_data_len st2 = 1000" "downloaded_data_len st2 = 150"
    by simp_all
  from first s1 s2 v2 c2 show ?thesis
    by simp
qed

section \<open>The action registry\<close>

lemma occupy_first_length [simp]:
  "length (occupy_first x tbl) = length tbl"
  by (induction x tbl rule: occupy_first.induct) simp_all

lemma occupied_le_length:
  "occupied tbl \<le> length tbl"
  by (simp add: occupied_def)

lemma occupied_full:
  "list_all (\<lambda>slot. slot \<noteq> None) tbl \<longleftrightarrow> occupied tbl = length tbl"
proof (induction tbl)
  case Nil
  then show ?case by (simp add: occupied_def)
next
  case (Cons slot tbl)
  have le: "occupied tbl \<le> length tbl"
    by (rule occupied_le_length)
  show ?case
  proof (cases slot)
    case None
    then have "occupied (slot # tbl) = occupied tbl"
      by (simp add: occupied_def)
    with le None show ?thesis by simp
  next
    case (Some x)
    then have "occupied (slot # tbl) = Suc (occupied tbl)"
      by (simp add: occupied_def)
    with Cons Some show ?thesis by simp
  qed
qed

lemma occupy_first_index:
  "\<not> list_all (\<lambda>slot. slot \<noteq> None) tbl \<Longrightarrow>
     \<exists>i<length tbl. tbl ! i = None \<and> (\<forall>j<i. tbl ! j \<noteq> None)
        \<and> occupy_first x tbl = tbl[i := Some x]"
proof (induction x tbl rule: occupy_first.induct)
  case (1 x)
  then show ?case by simp
next
  case (2 x tbl)
  have "0 < length (None # tbl) \<and> (None # tbl) ! 0 = None
      \<and> (\<forall>j<0. (None # tbl) ! j \<noteq> None)
      \<and> occupy_first x (None # tbl) = (None # tbl)[0 := Some x]"
    by simp
  then show ?case by blast
next
  case (3 x y tbl)
  then have "\<not> list_all (\<lambda>slot. slot \<noteq> None) tbl"
    by simp
  from 3(1) [OF this] obtain i where i: "i < length tbl" "tbl ! i = None"
    "\<forall>j<i. tbl ! j \<noteq> None" "occupy_first x tbl = tbl[i := Some x]"
    by blast
  have "\<forall>j<Suc i. (Some y # tbl) ! j \<noteq> None"
  proof (intro allI impI)
    fix j assume "j < Suc i"
    with i(3) show "(Some y # tbl) ! j \<noteq> None"
      by (cases j) simp_all
  qed
  with i have "Suc i < length (Some y # tbl) \<and> (Some y # tbl) ! Suc i = None
      \<and> (\<forall>j<Suc i. (Some y # tbl) ! j \<noteq> None)
      \<and> occupy_first x (Some y # tbl) = (Some y # tbl)[Suc i := Some x]"
    by simp
  then show ?case by blast
qed

lemma occupy_first_occupied:
  "\<not> list_all (\<lambda>slot. slot \<noteq> None) tbl \<Longrightarrow>
     occupied (occupy_first x tbl) = Suc (occupied tbl)"
  by (induction x tbl rule: occupy_first.induct) (simp_all add: occupied_def)

lemma occupy_first_named:
  "\<not> list_all (\<lambda>slot. slot \<noteq> None) tbl \<Longrightarrow>
     list_ex (named m) (occupy_first (n, f) tbl) \<longleftrightarrow> m = n \<or> list_ex (named m) tbl"
  by (induction "(n, f)" tbl rule: occupy_first.induct) (auto simp: named_def)

lemma replace_first_length [simp]:
  "length (replace_first name new tbl) = length tbl"
  by (induction tbl) simp_all

lemma add_length [simp]:
  "length (snd (bytebeam_add_action_handler f name tbl)) = length tbl"
  by (simp add: bytebeam_add_action_handler_def)

lemma add_all_length [simp]:
  "length (add_all xs tbl) = length tbl"
  by (induction xs tbl rule: add_all.induct) simp_all

lemma add_all_distinct_occupied:
  "distinct (map fst xs) \<Longrightarrow> \<forall>x\<in>set xs. \<not> list_ex (named (fst x)) tbl \<Longrightarrow>
     occupied tbl + length xs \<le> length tbl \<Longrightarrow>
     occupied (add_all xs tbl) = occupied tbl + length xs"
proof (induction xs tbl rule: add_all.induct)
  case (1 tbl)
  then show ?case by simp
next
  case (2 name f xs tbl)
  let ?t = "snd (bytebeam_add_action_handler f name tbl)"
  from 2(4) have "occupied tbl \<noteq> length tbl"
    by simp
  then have free: "\<not> list_all (\<lambda>slot. slot \<noteq> None) tbl"
    using occupied_full [of tbl] by simp
  from 2(3) have fresh: "\<not> list_ex (named name) tbl"
    by simp
  from free fresh have t: "?t = occupy_first (name, f) tbl"
    by (simp add: bytebeam_add_action_handler_def)
  have occ: "occupied ?t = Suc (occupied tbl)"
    unfolding t by (rule occupy_first_occupied [OF free])
  have "occupied (add_all xs ?t) = occupied ?t + length xs"
  proof (rule 2(1))
    show "distinct (map fst xs)"
      using 2(2) by simp
    show "\<forall>x\<in>set xs. \<not> list_ex (named (fst x)) ?t"
    proof
      fix x assume x: "x \<in> set xs"
      with 2(2) have "fst x \<noteq> name"
        by auto
      moreover from x 2(3) have "\<not> list_ex (named (fst x)) tbl"
        by simp
      ultimately show "\<not> list_ex (named (fst x)) ?t"
        unfolding t by (simp add: occupy_first_named [OF free])
    qed
    show "occupied ?t + length xs \<le> length ?t"
      using 2(4) occ by simp
  qed
  with occ show ?case by simp
qed

lemma reset_table_empty:
  "occupied (reset_table :: 'h action_funcs) = 0"
  "length (reset_table :: 'h action_funcs) = BYTEBEAM_NUMBER_OF_ACTIONS"
  "\<not> list_ex (named name) (reset_table :: 'h action_funcs)"
  by (simp_all add: reset_table_def occupied_def named_def list_ex_iff)

text \<open>
  Claim C6. On a table of \<^verbatim>\<open>BYTEBEAM_NUMBER_OF_ACTIONS\<close> = 10 slots, add fails with
  RegistryFull when no slot is empty; with an empty slot left it fails with
  DuplicateAction when the name occupies a slot; otherwise it succeeds and fills the
  first empty slot in scan order, leaving every other slot as it was. After any sequence
  of add calls at most 10 slots are occupied. After 10 add calls with distinct names on
  the reset table all 10 slots are occupied, and one more add fails with RegistryFull
  and returns the table unchanged.
\<close>

theorem add_action_handler_contract:
  assumes "length tbl = BYTEBEAM_NUMBER_OF_ACTIONS"
  shows "(list_all (\<lambda>slot. slot \<noteq> None) tbl \<longrightarrow>
            bytebeam_add_action_handler f name tbl = (Failed RegistryFull, tbl))
       \<and> (\<not> list_all (\<lambda>slot. slot \<noteq> None) tbl \<and> list_ex (named name) tbl \<longrightarrow>
            bytebeam_add_action_handler f name tbl = (Failed DuplicateAction, tbl))
       \<and> (\<not> list_all (\<lambda>slot. slot \<noteq> None) tbl \<and> \<not> list_ex (named name) tbl \<longrightarrow>
            (\<exists>i<length tbl. tbl ! i = None \<and> (\<forall>j<i. tbl ! j \<noteq> None)
               \<and> bytebeam_add_action_handler f name tbl = (Succeeded, tbl[i := Some (name, f)])))
       \<and> length (add_all xs tbl) = BYTEBEAM_NUMBER_OF_ACTIONS
       \<and> occupied (add_all xs tbl) \<le> BYTEBEAM_NUMBER_OF_ACTIONS
       \<and> (distinct (map fst ys) \<and> length ys = BYTEBEAM_NUMBER_OF_ACTIONS \<longrightarrow>
            occupied (add_all ys reset_table) = BYTEBEAM_NUMBER_OF_ACTIONS
            \<and> bytebeam_add_action_handler f name (add_all ys reset_table)
                = (Failed RegistryFull, add_all ys reset_table))"
proof (intro conjI)
  show "list_all (\<lambda>slot. slot \<noteq> None) tbl \<longrightarrow>
      bytebeam_add_action_handler f name tbl = (Failed RegistryFull, tbl)"
    by (simp add: bytebeam_add_action_handler_def)
next
  show "\<not> list_all (\<lambda>slot. slot \<noteq> None) tbl \<and> list_ex (named name) tbl \<longrightarrow>
      bytebeam_add_action_handler f name tbl = (Failed DuplicateAction, tbl)"
    by (simp add: bytebeam_add_action_handler_def)
next
  show "\<not> list_all (\<lambda>slot. slot \<noteq> None) tbl \<and> \<not> list_ex (named name) tbl \<longrightarrow>
      (\<exists>i<length tbl. tbl ! i = None \<and> (\<forall>j<i. tbl ! j \<noteq> None)
         \<and> bytebeam_add_action_handler f name tbl = (Succeeded, tbl[i := Some (name, f)]))"
  proof (rule impI)
    assume a: "\<not> list_all (\<lambda>slot. slot \<noteq> None) tbl \<and> \<not> list_ex (named name) tbl"
    then have "bytebeam_add_action_handler f name tbl = (Succeeded, occupy_first (name, f) tbl)"
      by (simp add: bytebeam_add_action_handler_def)
    with occupy_first_index [of tbl "(name, f)"] a
    show "\<exists>i<length tbl. tbl ! i = None \<and> (\<forall>j<i. tbl ! j \<noteq> None)
         \<and> bytebeam_add_action_handler f name tbl = (Succeeded, tbl[i := Some (name, f)])"
      by auto
  qed
next
  show "length (add_all xs tbl) = BYTEBEAM_NUMBER_OF_ACTIONS"
    using assms by simp
next
  show "occupied (add_all xs tbl) \<le> BYTEBEAM_NUMBER_OF_ACTIONS"
    using occupied_le_length [of "add_all xs tbl"] assms by simp
next
  show "distinct (map fst ys) \<and> length ys = BYTEBEAM_NUMBER_OF_ACTIONS \<longrightarrow>
      occupied (add_all ys reset_table) = BYTEBEAM_NUMBER_OF_ACTIONS
      \<and> bytebeam_add_action_handler f name (add_all ys reset_table)
          = (Failed RegistryFull, add_all ys reset_table)"
  proof (rule impI)
    assume a: "distinct (map fst ys) \<and> length ys = BYTEBEAM_NUMBER_OF_ACTIONS"
    let ?r = "reset_table :: 'a action_funcs"
    have "occupied (add_all ys ?r) = occupied ?r + length ys"
    proof (rule add_all_distinct_occupied)
      show "distinct (map fst ys)" using a by simp
      show "\<forall>x\<in>set ys. \<not> list_ex (named (fst x)) ?r"
        by (simp add: reset_table_empty)
      show "occupied ?r + length ys \<le> length ?r"
        using a by (simp add: reset_table_empty)
    qed
    with a have occ: "occupied (add_all ys ?r) = BYTEBEAM_NUMBER_OF_ACTIONS"
      by (simp add: reset_table_empty)
    then have "occupied (add_all ys ?r) = length (add_all ys ?r)"
      by (simp add: reset_table_empty)
    then have "list_all (\<lambda>slot. slot \<noteq> None) (add_all ys ?r)"
      by (rule occupied_full [THEN iffD2])
    then have "bytebeam_add_action_handler f name (add_all ys ?r)
        = (Failed RegistryFull, add_all ys ?r)"
      by (simp add: bytebeam_add_action_handler_def)
    with occ show "occupied (add_all ys ?r) = BYTEBEAM_NUMBER_OF_ACTIONS
      \<and> bytebeam_add_action_handler f name (add_all ys ?r)
          = (Failed RegistryFull, add_all ys ?r)"
      by simp
  qed
qed

text \<open>
  Ten handlers with distinct names on the reset table, and an eleventh; an add on the
  reset table; an add of a name that is already there.
\<close>

theorem add_action_handler_contract_witness:
  "length (reset_table :: nat action_funcs) = BYTEBEAM_NUMBER_OF_ACTIONS
   \<and> bytebeam_add_action_handler 1 ''led'' (reset_table :: nat action_funcs)
       = (Succeeded, (reset_table :: nat action_funcs)[0 := Some (''led'', 1)])
   \<and> bytebeam_add_action_handler 2 ''led'' ((reset_table :: nat action_funcs)[0 := Some (''led'', 1)])
       = (Failed DuplicateAction, (reset_table :: nat action_funcs)[0 := Some (''led'', 1)])
   \<and> occupied (add_all [(''a0'', 0), (''a1'', 1), (''a2'', 2), (''a3'', 3), (''a4'', 4),
         (''a5'', 5), (''a6'', 6), (''a7'', 7), (''a8'', 8), (''a9'', 9 :: nat)] reset_table) = 10
   \<and> bytebeam_add_action_handler 10 ''a10''
        (add_all [(''a0'', 0), (''a1'', 1), (''a2'', 2), (''a3'', 3), (''a4'', 4),
         (''a5'', 5), (''a6'', 6), (''a7'', 7), (''a8'', 8), (''a9'', 9 :: nat)] reset_table)
       = (Failed RegistryFull,
          [Some (''a0'', 0), Some (''a1'', 1), Some (''a2'', 2), Some (''a3'', 3),
           Some (''a4'', 4), Some (''a5'', 5), Some (''a6'', 6), Some (''a7'', 7),
           Some (''a8'', 8), Some (''a9'', 9)])"
proof -
  let ?r = "reset_table :: nat action_funcs"
  let ?ys = "[(''a0'', 0), (''a1'', 1), (''a2'', 2), (''a3'', 3), (''a4'', 4),
         (''a5'', 5), (''a6'', 6), (''a7'', 7), (''a8'', 8), (''a9'', 9 :: nat)]"
  have len: "length ?r = BYTEBEAM_NUMBER_OF_ACTIONS"
    by (simp add: reset_table_def)
  have d: "distinct (map fst ?ys) \<and> length ?ys = BYTEBEAM_NUMBER_OF_ACTIONS"
    by (simp add: BYTEBEAM_NUMBER_OF_ACTIONS_def)
  have tbl: "add_all ?ys ?r =
      [Some (''a0'', 0), Some (''a1'', 1), Some (''a2'', 2), Some (''a3'', 3),
       Some (''a4'', 4), Some (''a5'', 5), Some (''a6'', 6), Some (''a7'', 7),
       Some (''a8'', 8), Some (''a9'', 9)]"
    by code_simp
  have first: "bytebeam_add_action_handler 1 ''led'' ?r = (Succeeded, ?r[0 := Some (''led'', 1)])"
    by code_simp
  have dup: "bytebeam_add_action_handler 2 ''led'' (?r[0 := Some (''led'', 1)])
      = (Failed DuplicateAction, ?r[0 := Some (''led'', 1)])"
    by code_simp
  from add_action_handler_contract [OF len, where ys = ?ys and f = 10 and name = "''a10''"] d
  have "occupied (add_all ?ys ?r) = BYTEBEAM_NUMBER_OF_ACTIONS
      \<and> bytebeam_add_action_handler 10 ''a10'' (add_all ?ys ?r)
          = (Failed RegistryFull, add_all ?ys ?r)"
    by blast
  then have "occupied (add_all ?ys ?r) = 10
      \<and> bytebeam_add_action_handler 10 ''a10'' (add_all ?ys ?r)
          = (Failed RegistryFull,
             [Some (''a0'', 0), Some (''a1'', 1), Some (''a2'', 2), Some (''a3'', 3),
              Some (''a4'', 4), Some (''a5'', 5), Some (''a6'', 6), Some (''a7'', 7),
              Some (''a8'', 8), Some (''a9'', 9)])"
    unfolding tbl by (simp add: BYTEBEAM_NUMBER_OF_ACTIONS_def)
  with len first dup show ?thesis
    by blast
qed

text \<open>
  Claim C7. A registry call that fails returns the table it was given: whenever add,
  update or remove reports a failure (a full table, a duplicate name, an absent name),
  every slot has the name and the handler it had before the call. Add fails exactly
  when the table is full or the name is present, update and remove exactly when the name
  is absent.
\<close>

theorem failed_registry_call_keeps_table:
  "(fst (bytebeam_add_action_handler f name tbl) = Failed e \<longrightarrow>
       snd (bytebeam_add_action_handler f name tbl) = tbl
       \<and> (list_all (\<lambda>slot. slot \<noteq> None) tbl \<or> list_ex (named name) tbl))
   \<and> (fst (bytebeam_update_action_handler f name tbl) = Failed e \<longrightarrow>
       snd (bytebeam_update_action_handler f name tbl) = tbl
       \<and> e = ActionNotFound \<and> \<not> list_ex (named name) tbl)
   \<and> (fst (bytebeam_remove_action_handler name tbl) = Failed e \<longrightarrow>
       snd (bytebeam_remove_action_handler name tbl) = tbl
       \<and> e = ActionNotFound \<and> \<not> list_ex (named name) tbl)"
  by (simp add: bytebeam_add_action_handler_def bytebeam_update_action_handler_def
      bytebeam_remove_action_handler_def)

text \<open>
  On a table that holds only \<open>led\<close>: an update and a removal of the absent name
  \<open>fan\<close>, and a second add of \<open>led\<close>.
\<close>

theorem failed_registry_call_keeps_table_witness:
  "bytebeam_update_action_handler 3 ''fan'' ((reset_table :: nat action_funcs)[0 := Some (''led'', 1)])
     = (Failed ActionNotFound, (reset_table :: nat action_funcs)[0 := Some (''led'', 1)])
   \<and> bytebeam_remove_action_handler ''fan'' ((reset_table :: nat action_funcs)[0 := Some (''led'', 1)])
     = (Failed ActionNotFound, (reset_table :: nat action_funcs)[0 := Some (''led'', 1)])
   \<and> bytebeam_add_action_handler 2 ''led'' ((reset_table :: nat action_funcs)[0 := Some (''led'', 1)])
     = (Failed DuplicateAction, (reset_table :: nat action_funcs)[0 := Some (''led'', 1)])"
proof -
  let ?t = "(reset_table :: nat action_funcs)[0 := Some (''led'', 1)]"
  have a: "fst (bytebeam_add_action_handler 2 ''led'' ?t) = Failed DuplicateAction"
    by code_simp
  have u: "fst (bytebeam_update_action_handler 3 ''fan'' ?t) = Failed ActionNotFound"
    by code_simp
  have r: "fst (bytebeam_remove_action_handler ''fan'' ?t) = Failed ActionNotFound"
    by code_simp
  from failed_registry_call_keeps_table [of 2 "''led''" ?t DuplicateAction] a
  have a': "snd (bytebeam_add_action_handler 2 ''led'' ?t) = ?t"
    by blast
  from failed_registry_call_keeps_table [of 3 "''fan''" ?t ActionNotFound] u r
  have u': "snd (bytebeam_update_action_handler 3 ''fan'' ?t) = ?t"
    and r': "snd (bytebeam_remove_action_handler ''fan'' ?t) = ?t"
    by blast+
  from a a' u u' r r' show ?thesis
    by (simp add: prod_eq_iff)
qed

section \<open>Accuracy of the floating-point percentage\<close>

text \<open>
  Rounding to \<open>p\<close> significant bits changes a positive value by at most the fraction
  \<open>2 powr (- p)\<close> of it. The four roundings of line 66 (two conversions, the
  division and the product) therefore keep the result within one half of the exact
  value \<open>100 * downloaded / total\<close> as long as \<open>downloaded\<close> does not exceed
  \<open>total\<close>.
\<close>

lemma two_powr_int:
  "0 \<le> s \<Longrightarrow> 2 powr real_of_int s = 2 ^ nat s"
  by (simp add: powr_realpow [symmetric])

lemma two_powr_neg_int:
  "s < 0 \<Longrightarrow> 2 powr real_of_int s = 1 / 2 ^ nat (- s)"
proof -
  assume "s < 0"
  then have "2 powr real_of_int s = 2 powr (- real_of_int (- s))" by simp
  also have "\<dots> = 1 / 2 powr real_of_int (- s)"
    by (simp only: powr_minus_divide)
  also have "\<dots> = 1 / 2 ^ nat (- s)"
    using two_powr_int [of "- s"] \<open>s < 0\<close> by simp
  finally show ?thesis .
qed

lemma scale2_val:
  assumes "0 < d"
  shows "rat_val (scale2 s (n, d)) = rat_val (n, d) * 2 powr real_of_int s"
    and "0 < snd (scale2 s (n, d))"
    and "0 \<le> n \<Longrightarrow> 0 \<le> fst (scale2 s (n, d))"
proof -
  show "rat_val (scale2 s (n, d)) = rat_val (n, d) * 2 powr real_of_int s"
  proof (cases "0 \<le> s")
    case True
    then show ?thesis
      by (simp add: scale2_def rat_val_def two_powr_int)
  next
    case False
    then have "s < 0" by simp
    from two_powr_neg_int [OF this] False show ?thesis
      by (simp add: scale2_def rat_val_def)
  qed
  show "0 < snd (scale2 s (n, d))"
    using assms by (simp add: scale2_def)
  show "0 \<le> n \<Longrightarrow> 0 \<le> fst (scale2 s (n, d))"
    by (simp add: scale2_def)
qed

lemma round_even_err:
  assumes "0 < d"
  shows "\<bar>real_of_int (round_even (n, d)) - rat_val (n, d)\<bar> \<le> 1 / 2"
proof -
  define k where "k = n div d"
  define r where "r = n mod d"
  have n: "n = d * k + r" and r: "0 \<le> r" "r < d"
    using assms by (simp_all add: k_def r_def)
  have v: "rat_val (n, d) = real_of_int k + real_of_int r / real_of_int d"
    using assms by (simp add: rat_val_def n field_simps)
  have d0: "0 < real_of_int d" using assms by simp
  consider "2 * r < d" | "d < 2 * r" | "2 * r = d" by linarith
  then show ?thesis
  proof cases
    case 1
    then have "round_even (n, d) = k"
      by (simp add: round_even_def Let_def k_def r_def)
    moreover from 1 have "2 * real_of_int r < real_of_int d"
      by (metis of_int_less_iff of_int_mult of_int_numeral)
    then have "real_of_int r / real_of_int d \<le> 1 / 2"
      using d0 by (simp add: field_simps)
    moreover have "0 \<le> real_of_int r / real_of_int d"
      using r d0 by simp
    ultimately show ?thesis by (simp add: v)
  next
    case 2
    then have "round_even (n, d) = k + 1"
      by (simp add: round_even_def Let_def k_def r_def)
    moreover from 2 have "real_of_int d < 2 * real_of_int r"
      by (metis of_int_less_iff of_int_mult of_int_numeral)
    then have "1 / 2 \<le> real_of_int r / real_of_int d"
      using d0 by (simp add: field_simps)
    moreover have "real_of_int r / real_of_int d \<le> 1"
      using r d0 by simp
    ultimately show ?thesis by (simp add: v)
  next
    case 3
    then have "round_even (n, d) = k \<or> round_even (n, d) = k + 1"
      by (simp add: round_even_def Let_def k_def r_def)
    moreover from 3 have "2 * real_of_int r = real_of_int d"
      by (metis of_int_mult of_int_numeral)
    then have "real_of_int r / real_of_int d = 1 / 2"
      using d0 by (simp add: field_simps)
    ultimately show ?thesis by (auto simp: v)
  qed
qed


lemma bitlen_powr:
  assumes "0 < n"
  shows "2 powr (real_of_int (bitlen n) - 1) \<le> real_of_int n"
    and "real_of_int n < 2 powr real_of_int (bitlen n)"
proof -
  from bitlen_bounds [OF assms] have lo: "2 ^ nat (bitlen n - 1) \<le> n" and hi: "n < 2 ^ nat (bitlen n)"
    by simp_all
  have b1: "1 \<le> bitlen n"
  proof (rule ccontr)
    assume "\<not> 1 \<le> bitlen n"
    then have "nat (bitlen n) = 0" by simp
    with hi assms show False by simp
  qed
  from lo have "real_of_int (2 ^ nat (bitlen n - 1)) \<le> real_of_int n"
    by (simp only: of_int_le_iff)
  moreover have "2 powr (real_of_int (bitlen n) - 1) = real_of_int (2 ^ nat (bitlen n - 1))"
    using two_powr_int [of "bitlen n - 1"] b1 by simp
  ultimately show "2 powr (real_of_int (bitlen n) - 1) \<le> real_of_int n"
    by simp
  from hi have "real_of_int n < real_of_int (2 ^ nat (bitlen n))"
    by (simp only: of_int_less_iff)
  moreover have "2 powr real_of_int (bitlen n) = real_of_int (2 ^ nat (bitlen n))"
    using two_powr_int [of "bitlen n"] b1 by simp
  ultimately show "real_of_int n < 2 powr real_of_int (bitlen n)"
    by simp
qed

lemma ilog2_bounds:
  assumes "0 < n" and "0 < d"
  shows "2 powr real_of_int (ilog2 (n, d)) \<le> rat_val (n, d)"
    and "rat_val (n, d) < 2 powr (real_of_int (ilog2 (n, d)) + 1)"
proof -
  define e where "e = bitlen n - bitlen d"
  define x where "x = rat_val (n, d)"
  have rn: "0 < real_of_int n" and rd: "0 < real_of_int d"
    using assms by simp_all
  have x: "x = real_of_int n / real_of_int d"
    by (simp add: x_def rat_val_def)
  have er: "real_of_int e = real_of_int (bitlen n) - real_of_int (bitlen d)"
    by (simp add: e_def)
  have "x < 2 powr real_of_int (bitlen n) / 2 powr (real_of_int (bitlen d) - 1)"
    unfolding x using bitlen_powr(2) [OF assms(1)] bitlen_powr(1) [OF assms(2)] rn rd
    by (intro frac_less) simp_all
  also have "\<dots> = 2 powr (real_of_int (bitlen n) - (real_of_int (bitlen d) - 1))"
    by (simp only: powr_diff)
  also have "real_of_int (bitlen n) - (real_of_int (bitlen d) - 1) = real_of_int e + 1"
    by (simp add: er)
  finally have up: "x < 2 powr (real_of_int e + 1)" .
  have "2 powr (real_of_int (bitlen n) - 1) / 2 powr real_of_int (bitlen d) < x"
    unfolding x using bitlen_powr(1) [OF assms(1)] bitlen_powr(2) [OF assms(2)] rn rd
    by (intro frac_less2) simp_all
  moreover have "2 powr (real_of_int (bitlen n) - 1) / 2 powr real_of_int (bitlen d)
      = 2 powr (real_of_int (bitlen n) - 1 - real_of_int (bitlen d))"
    by (simp only: powr_diff)
  moreover have "real_of_int (bitlen n) - 1 - real_of_int (bitlen d) = real_of_int e - 1"
    by (simp add: er)
  ultimately have low: "2 powr (real_of_int e - 1) < x"
    by simp
  obtain n' d' where sc: "scale2 (- e) (n, d) = (n', d')"
    by (cases "scale2 (- e) (n, d)")
  from scale2_val(1) [OF assms(2), of "- e" n] sc
  have v: "rat_val (n', d') = x * 2 powr (- real_of_int e)"
    by (simp add: x_def)
  from scale2_val(2) [OF assms(2), of "- e" n] sc have d': "0 < d'"
    by simp
  have test: "d' \<le> n' \<longleftrightarrow> 2 powr real_of_int e \<le> x"
  proof -
    have "d' \<le> n' \<longleftrightarrow> real_of_int d' \<le> real_of_int n'"
      by simp
    also have "\<dots> \<longleftrightarrow> 1 \<le> rat_val (n', d')"
      using d' by (simp add: rat_val_def)
    also have "\<dots> \<longleftrightarrow> 1 \<le> x / 2 powr real_of_int e"
      by (simp add: v powr_minus_divide)
    also have "\<dots> \<longleftrightarrow> 2 powr real_of_int e \<le> x"
      by (simp add: field_simps)
    finally show ?thesis .
  qed
  have il: "ilog2 (n, d) = (if d' \<le> n' then e else e - 1)"
    using sc by (simp add: ilog2_def Let_def e_def)
  show "2 powr real_of_int (ilog2 (n, d)) \<le> rat_val (n, d)"
  proof (cases "d' \<le> n'")
    case True
    with il test show ?thesis by (simp add: x_def)
  next
    case False
    with il low show ?thesis by (simp add: x_def)
  qed
  show "rat_val (n, d) < 2 powr (real_of_int (ilog2 (n, d)) + 1)"
  proof (cases "d' \<le> n'")
    case True
    with il up show ?thesis by (simp add: x_def)
  next
    case False
    with il test show ?thesis by (simp add: x_def)
  qed
qed


lemma scale2_pos:
  "0 < n \<Longrightarrow> 0 < fst (scale2 s (n, d))"
  by (simp add: scale2_def)

lemma round_even_nonneg:
  assumes "0 \<le> n" and "0 < d"
  shows "0 \<le> round_even (n, d)"
proof -
  from assms have "0 \<le> n div d"
    by (simp add: pos_imp_zdiv_nonneg_iff)
  then show ?thesis
    by (simp add: round_even_def Let_def)
qed

lemma fp_round_nonneg:
  assumes "0 \<le> n" and "0 < d"
  shows "0 \<le> fst (fp_round p (n, d))"
proof -
  define s where "s = int p - 1 - ilog2 (n, d)"
  obtain N D where sc: "scale2 s (n, d) = (N, D)"
    by (cases "scale2 s (n, d)")
  from scale2_val(2) [OF assms(2), where s = s and n = n] sc have "0 < D"
    by simp
  moreover from scale2_val(3) [OF assms(2) assms(1), where s = s] sc have "0 \<le> N"
    by simp
  ultimately have "0 < D" "0 \<le> N" .
  from round_even_nonneg [OF this(2,1)] sc show ?thesis
    by (simp add: fp_round_def Let_def s_def)
qed

lemma fp_round_zero:
  assumes "0 < d"
  shows "fp_val (fp_round p (0, d)) = 0"
proof -
  define s where "s = int p - 1 - ilog2 (0, d)"
  obtain N D where sc: "scale2 s (0, d) = (N, D)"
    by (cases "scale2 s (0, d)")
  from scale2_val(2) [OF assms, of s 0] sc have "0 < D"
    by simp
  moreover from sc have "N = 0"
    by (auto simp: scale2_def split: if_splits)
  ultimately have "round_even (N, D) = 0"
    by (simp add: round_even_def)
  with sc show ?thesis
    by (simp add: fp_round_def Let_def s_def fp_val_def)
qed

lemma fp_round_err:
  assumes "0 < n" and "0 < d" and "1 \<le> p"
  shows "\<bar>fp_val (fp_round p (n, d)) - rat_val (n, d)\<bar> \<le> rat_val (n, d) * 2 powr (- real p)"
    and "0 < fst (fp_round p (n, d))"
proof -
  define k where "k = ilog2 (n, d)"
  define s where "s = int p - 1 - k"
  define x where "x = rat_val (n, d)"
  obtain N D where sc: "scale2 s (n, d) = (N, D)"
    by (cases "scale2 s (n, d)")
  define y where "y = rat_val (N, D)"
  define m where "m = round_even (N, D)"
  from scale2_val(2) [OF assms(2), of s n] sc have D: "0 < D"
    by simp
  from scale2_val(1) [OF assms(2), of s n] sc have y: "y = x * 2 powr real_of_int s"
    by (simp add: y_def x_def)
  from ilog2_bounds(1) [OF assms(1,2)] have lo: "2 powr real_of_int k \<le> x"
    by (simp add: k_def x_def)
  have fr: "fp_round p (n, d) = (m, - s)"
    using sc by (simp add: fp_round_def Let_def s_def k_def m_def)
  have me: "\<bar>real_of_int m - y\<bar> \<le> 1 / 2"
    unfolding m_def y_def by (rule round_even_err [OF D])
  have sk: "real_of_int s + real_of_int k = real p - 1"
    by (simp add: s_def)
  have "2 powr (real p - 1) = 2 powr real_of_int k * 2 powr real_of_int s"
    by (simp add: powr_add [symmetric] sk [symmetric] add.commute)
  also have "\<dots> \<le> y"
    unfolding y using lo by (simp add: mult_right_mono)
  finally have ylo: "2 powr (real p - 1) \<le> y" .
  have "1 = 2 powr (0::real)" by simp
  also have "\<dots> \<le> 2 powr (real p - 1)"
    using assms(3) by (intro powr_mono) simp_all
  finally have "1 \<le> y" using ylo by simp
  with me have "0 < real_of_int m" by linarith
  then show "0 < fst (fp_round p (n, d))"
    by (simp add: fr)
  have half: "2 powr (- 1 :: real) = 1 / 2"
    by (simp add: powr_minus_divide)
  have xs: "x = y * 2 powr (- real_of_int s)"
    by (simp add: y powr_add [symmetric])
  have "fp_val (fp_round p (n, d)) - x = (real_of_int m - y) * 2 powr (- real_of_int s)"
    by (simp add: fr fp_val_def xs algebra_simps)
  then have "\<bar>fp_val (fp_round p (n, d)) - x\<bar> = \<bar>real_of_int m - y\<bar> * 2 powr (- real_of_int s)"
    by (simp add: abs_mult)
  also have "\<dots> \<le> 1 / 2 * 2 powr (- real_of_int s)"
    using me by (intro mult_right_mono) simp_all
  also have "1 / 2 * 2 powr (- real_of_int s) = 2 powr (- 1) * 2 powr (- real_of_int s)"
    by (simp only: half)
  also have "\<dots> = 2 powr (- 1 + (- real_of_int s))"
    by (simp only: powr_add)
  also have "- 1 + (- real_of_int s) = - 1 - real_of_int s"
    by simp
  also have "- 1 - real_of_int s = real_of_int k + (- real p)"
    using sk by simp
  also have "2 powr (real_of_int k + (- real p)) = 2 powr real_of_int k * 2 powr (- real p)"
    by (rule powr_add)
  also have "\<dots> \<le> x * 2 powr (- real p)"
    using lo by (intro mult_right_mono) simp_all
  finally show "\<bar>fp_val (fp_round p (n, d)) - rat_val (n, d)\<bar> \<le> rat_val (n, d) * 2 powr (- real p)"
    by (simp add: x_def)
qed


lemma fp_round_close:
  assumes "0 \<le> n" and "0 < d" and "10 \<le> p"
  shows "999 / 1000 * rat_val (n, d) \<le> fp_val (fp_round p (n, d))"
    and "fp_val (fp_round p (n, d)) \<le> 1001 / 1000 * rat_val (n, d)"
proof -
  have both: "999 / 1000 * rat_val (n, d) \<le> fp_val (fp_round p (n, d))
      \<and> fp_val (fp_round p (n, d)) \<le> 1001 / 1000 * rat_val (n, d)"
  proof (cases "n = 0")
    case True
    with fp_round_zero [OF assms(2), of p] show ?thesis
      by (simp add: rat_val_def)
  next
    case False
    with assms(1) have n: "0 < n" by simp
    from assms(3) have p1: "1 \<le> p" by simp
    define x where "x = rat_val (n, d)"
    have x0: "0 \<le> x"
      using n assms(2) by (simp add: x_def rat_val_def)
    have "2 powr (- real p) \<le> 2 powr (- 10)"
      using assms(3) by (intro powr_mono) simp_all
    also have "2 powr (- 10 :: real) = 1 / 1024"
      by (simp add: powr_minus_divide)
    finally have u: "2 powr (- real p) \<le> 1 / 1000"
      by simp
    from fp_round_err(1) [OF n assms(2) p1]
    have "\<bar>fp_val (fp_round p (n, d)) - x\<bar> \<le> x * 2 powr (- real p)"
      by (simp add: x_def)
    also have "\<dots> \<le> x * (1 / 1000)"
      using u x0 by (rule mult_left_mono)
    finally have "\<bar>fp_val (fp_round p (n, d)) - x\<bar> \<le> x / 1000"
      by simp
    then show ?thesis
      unfolding x_def [symmetric] by linarith
  qed
  from both show "999 / 1000 * rat_val (n, d) \<le> fp_val (fp_round p (n, d))"
    and "fp_val (fp_round p (n, d)) \<le> 1001 / 1000 * rat_val (n, d)"
    by simp_all
qed

lemma float_of_int_close:
  assumes "0 \<le> x"
  shows "999 / 1000 * real_of_int x \<le> fp_val (float_of_int x)"
    and "fp_val (float_of_int x) \<le> 1001 / 1000 * real_of_int x"
    and "0 \<le> fst (float_of_int x)"
    and "0 < x \<Longrightarrow> 0 < fst (float_of_int x)"
proof -
  have d: "(0::int) < 1" and p: "(10::nat) \<le> 24" and p1: "(1::nat) \<le> 24"
    by simp_all
  from fp_round_close [OF assms d p]
  show "999 / 1000 * real_of_int x \<le> fp_val (float_of_int x)"
    and "fp_val (float_of_int x) \<le> 1001 / 1000 * real_of_int x"
    by (simp_all add: float_of_int_def rat_val_def)
  from fp_round_nonneg [OF assms d] show "0 \<le> fst (float_of_int x)"
    by (simp add: float_of_int_def)
  show "0 < x \<Longrightarrow> 0 < fst (float_of_int x)"
    using fp_round_err(2) [OF _ d p1, of x] by (simp add: float_of_int_def)
qed

lemma float_div_close:
  assumes "0 \<le> fst a" and "0 < fst b"
  shows "999 / 1000 * (fp_val a / fp_val b) \<le> fp_val (float_div a b)"
    and "fp_val (float_div a b) \<le> 1001 / 1000 * (fp_val a / fp_val b)"
    and "0 \<le> fst (float_div a b)"
proof -
  obtain m1 e1 where a: "a = (m1, e1)" by (cases a)
  obtain m2 e2 where b: "b = (m2, e2)" by (cases b)
  from assms a b have m1: "0 \<le> m1" and m2: "0 < m2"
    by simp_all
  obtain N D where sc: "scale2 (e1 - e2) (m1, m2) = (N, D)"
    by (cases "scale2 (e1 - e2) (m1, m2)")
  from scale2_val(2) [OF m2, where s = "e1 - e2" and n = m1] sc have D: "0 < D"
    by simp
  from scale2_val(3) [OF m2 m1, where s = "e1 - e2"] sc have N: "0 \<le> N"
    by simp
  have "rat_val (N, D) = rat_val (m1, m2) * 2 powr real_of_int (e1 - e2)"
    using scale2_val(1) [OF m2, where s = "e1 - e2" and n = m1] sc by simp
  also have "2 powr real_of_int (e1 - e2) = 2 powr real_of_int e1 / 2 powr real_of_int e2"
    by (simp add: powr_diff)
  finally have v: "rat_val (N, D) = fp_val a / fp_val b"
    by (simp add: a b rat_val_def fp_val_def)
  have fd: "float_div a b = fp_round 24 (N, D)"
    by (simp add: float_div_def a b sc)
  have p: "(10::nat) \<le> 24" by simp
  from fp_round_close [OF N D p] v fd
  show "999 / 1000 * (fp_val a / fp_val b) \<le> fp_val (float_div a b)"
    and "fp_val (float_div a b) \<le> 1001 / 1000 * (fp_val a / fp_val b)"
    by simp_all
  from fp_round_nonneg [OF N D] fd show "0 \<le> fst (float_div a b)"
    by simp
qed

lemma double_times_100_close:
  assumes "0 \<le> fst a"
  shows "999 / 1000 * (100 * fp_val a) \<le> fp_val (double_times_100 a)"
    and "fp_val (double_times_100 a) \<le> 1001 / 1000 * (100 * fp_val a)"
    and "0 \<le> fst (double_times_100 a)"
proof -
  obtain m e where a: "a = (m, e)" by (cases a)
  from assms a have m: "0 \<le> 100 * m" by simp
  have one: "(0::int) < 1" by simp
  obtain N D where sc: "scale2 e (100 * m, 1) = (N, D)"
    by (cases "scale2 e (100 * m, 1)")
  from scale2_val(2) [OF one, where s = e and n = "100 * m"] sc have D: "0 < D"
    by simp
  from scale2_val(3) [OF one m, where s = e] sc have N: "0 \<le> N"
    by simp
  have v: "rat_val (N, D) = 100 * fp_val a"
    using scale2_val(1) [OF one, where s = e and n = "100 * m"] sc
    by (simp add: a rat_val_def fp_val_def)
  have dt: "double_times_100 a = fp_round 53 (N, D)"
    by (simp add: double_times_100_def a sc)
  have p: "(10::nat) \<le> 53" by simp
  from fp_round_close [OF N D p] v dt
  show "999 / 1000 * (100 * fp_val a) \<le> fp_val (double_times_100 a)"
    and "fp_val (double_times_100 a) \<le> 1001 / 1000 * (100 * fp_val a)"
    by simp_all
  from fp_round_nonneg [OF N D] dt show "0 \<le> fst (double_times_100 a)"
    by simp
qed

lemma fp_trunc_floor:
  "fp_trunc a = \<lfloor>fp_val a\<rfloor>"
proof -
  obtain m e where a: "a = (m, e)" by (cases a)
  show ?thesis
  proof (cases "0 \<le> e")
    case True
    then have "fp_val a = real_of_int (m * 2 ^ nat e)"
      by (simp add: a fp_val_def two_powr_int)
    then have "\<lfloor>fp_val a\<rfloor> = m * 2 ^ nat e"
      by (simp only: floor_of_int)
    with True show ?thesis
      by (simp add: a fp_trunc_def)
  next
    case False
    then have "e < 0" by simp
    from two_powr_neg_int [OF this]
    have "fp_val a = real_of_int m / real_of_int (2 ^ nat (- e))"
      by (simp add: a fp_val_def)
    then have "\<lfloor>fp_val a\<rfloor> = m div 2 ^ nat (- e)"
      by (simp only: floor_divide_of_int_eq)
    with False show ?thesis
      by (simp add: a fp_trunc_def)
  qed
qed


lemma percent_value_close:
  assumes "0 \<le> dl" and "dl \<le> img" and "0 < img"
  defines "G \<equiv> fp_val (double_times_100 (float_div (float_of_int dl) (float_of_int img)))"
  shows "0 \<le> G" and "G \<le> 100 * (real_of_int dl / real_of_int img) + 1 / 2"
    and "100 * (real_of_int dl / real_of_int img) - 1 / 2 \<le> G"
proof -
  define A where "A = fp_val (float_of_int dl)"
  define B where "B = fp_val (float_of_int img)"
  define Q where "Q = fp_val (float_div (float_of_int dl) (float_of_int img))"
  define x where "x = real_of_int dl / real_of_int img"
  have rd: "0 \<le> real_of_int dl" and ri: "0 < real_of_int img"
    and le: "real_of_int dl \<le> real_of_int img"
    using assms(1-3) by simp_all
  have x0: "0 \<le> x" and x1: "x \<le> 1"
    using rd ri le by (simp_all add: x_def)
  have img0: "0 \<le> img" using assms(3) by simp
  note fa = float_of_int_close [OF assms(1)]
  note fb = float_of_int_close [OF img0]
  have A: "999 / 1000 * real_of_int dl \<le> A" "A \<le> 1001 / 1000 * real_of_int dl"
    using fa(1,2) by (simp_all add: A_def)
  have Bv: "999 / 1000 * real_of_int img \<le> B" "B \<le> 1001 / 1000 * real_of_int img"
    using fb(1,2) by (simp_all add: B_def)
  have A0: "0 \<le> A" using A(1) rd by linarith
  have B0: "0 < B" using Bv(1) ri by linarith
  have m2: "0 < fst (float_of_int img)"
    using fb(4) assms(3) by simp
  note fq = float_div_close [OF fa(3) m2]
  have Q: "999 / 1000 * (A / B) \<le> Q" "Q \<le> 1001 / 1000 * (A / B)"
    using fq(1,2) by (simp_all add: Q_def A_def B_def)
  have "A / B \<le> (1001 / 1000 * real_of_int dl) / (999 / 1000 * real_of_int img)"
    using A0 A(2) Bv(1) ri by (intro frac_le) simp_all
  also have "\<dots> = 1001 / 999 * x"
    by (simp add: x_def)
  finally have AB_up: "A / B \<le> 1001 / 999 * x" .
  have "999 / 1001 * x = (999 / 1000 * real_of_int dl) / (1001 / 1000 * real_of_int img)"
    by (simp add: x_def)
  also have "\<dots> \<le> A / B"
    using rd A(1) Bv(2) B0 by (intro frac_le) simp_all
  finally have AB_lo: "999 / 1001 * x \<le> A / B" .
  have Q_up: "Q \<le> 1001 / 1000 * (1001 / 999 * x)"
    using Q(2) AB_up by linarith
  have Q_lo: "999 / 1000 * (999 / 1001 * x) \<le> Q"
    using Q(1) AB_lo by linarith
  note fg = double_times_100_close [OF fq(3)]
  have G: "999 / 1000 * (100 * Q) \<le> G" "G \<le> 1001 / 1000 * (100 * Q)"
    using fg(1,2) by (simp_all add: G_def Q_def)
  have Q0: "0 \<le> Q" using Q_lo x0 by linarith
  show "0 \<le> G" using G(1) Q0 by linarith
  show "G \<le> 100 * (real_of_int dl / real_of_int img) + 1 / 2"
    unfolding x_def [symmetric] using G(2) Q_up x0 x1 by linarith
  show "100 * (real_of_int dl / real_of_int img) - 1 / 2 \<le> G"
    unfolding x_def [symmetric] using G(1) Q_lo x0 x1 by linarith
qed

lemma progress_percent_close:
  assumes "0 \<le> dl" and "dl \<le> img" and "0 < img"
  shows "\<exists>pc. progress_percent dl img = Some pc \<and> 0 \<le> pc \<and> pc \<le> 100
           \<and> \<bar>pc - dl * 100 div img\<bar> \<le> 1"
proof -
  define g where "g = double_times_100 (float_div (float_of_int dl) (float_of_int img))"
  define G where "G = fp_val g"
  define pc where "pc = fp_trunc g"
  define F where "F = dl * 100 div img"
  define y where "y = 100 * (real_of_int dl / real_of_int img)"
  note c = percent_value_close [OF assms]
  have G0: "0 \<le> G" and Gu: "G \<le> y + 1 / 2" and Gl: "y - 1 / 2 \<le> G"
    using c by (simp_all add: G_def g_def y_def)
  have ri: "0 < real_of_int img" using assms(3) by simp
  have y1: "y \<le> 100"
    using assms ri by (simp add: y_def field_simps)
  have pcG: "pc = \<lfloor>G\<rfloor>"
    by (simp add: pc_def G_def fp_trunc_floor)
  have "y = real_of_int (dl * 100) / real_of_int img"
    by (simp add: y_def)
  then have Fy: "F = \<lfloor>y\<rfloor>"
    by (simp only: F_def floor_divide_of_int_eq)
  have pc0: "0 \<le> pc"
    using G0 by (simp add: pcG)
  have "G < 101" using Gu y1 by linarith
  then have "pc < 101"
    unfolding pcG by (simp add: floor_less_iff)
  then have pc100: "pc \<le> 100" by simp
  have "real_of_int pc \<le> G" "G < real_of_int pc + 1"
    unfolding pcG by linarith+
  moreover have "real_of_int F \<le> y" "y < real_of_int F + 1"
    unfolding Fy by linarith+
  ultimately have "real_of_int pc < real_of_int (F + 2)" "real_of_int F < real_of_int (pc + 2)"
    using Gu Gl by simp_all
  then have "pc < F + 2" "F < pc + 2"
    by (simp_all only: of_int_less_iff)
  then have close: "\<bar>pc - F\<bar> \<le> 1" by linarith
  have zero: "dl = 0 \<Longrightarrow> pc = 0"
  proof -
    assume "dl = 0"
    then have "y = 0" by (simp add: y_def)
    with Gu Gl G0 have "0 \<le> G" "G < 1" by linarith+
    then show "pc = 0" unfolding pcG by linarith
  qed
  have sg: "sgn dl * sgn img * pc = pc"
  proof (cases "dl = 0")
    case True
    with zero show ?thesis by simp
  next
    case False
    with assms(1,3) show ?thesis by simp
  qed
  have abs: "\<bar>dl\<bar> = dl" "\<bar>img\<bar> = img" "img \<noteq> 0"
    using assms by simp_all
  have ii: "in_int pc"
    using pc0 pc100 by (simp add: in_int_def INT_MIN_def INT_MAX_def)
  have "progress_percent dl img = Some pc"
    using ii by (simp add: progress_percent_def abs Let_def sg pc_def [symmetric] g_def [symmetric])
  with pc0 pc100 close show ?thesis
    by (simp add: F_def)
qed

lemma spec_percent_in_range:
  assumes "0 \<le> dl" and "dl \<le> img" and "0 < img"
  shows "spec_percent dl img = dl * 100 div img"
proof -
  have "0 \<le> dl * 100 div img"
    using assms by (simp add: pos_imp_zdiv_nonneg_iff)
  moreover have "dl * 100 \<le> img * 100"
    using assms by simp
  then have "dl * 100 div img \<le> img * 100 div img"
    using assms(3) by (intro zdiv_mono1) simp_all
  then have "dl * 100 div img \<le> 100"
    using assms(3) by simp
  ultimately show ?thesis
    by (simp add: spec_percent_def)
qed

lemma deliver_test_nonneg:
  "deliver test_event_handler evs st = Some st' \<Longrightarrow> \<forall>e\<in>set evs. 0 \<le> data_len e \<Longrightarrow>
     0 \<le> ota_img_data_len st \<Longrightarrow> 0 \<le> ota_img_data_len st'"
proof (induction evs arbitrary: st)
  case Nil
  then show ?case by simp
next
  case (Cons evt evs)
  from Cons.prems(1) obtain st1 where a: "test_event_handler evt st = Some st1"
    and b: "deliver test_event_handler evs st1 = Some st'"
    by (auto split: option.splits)
  from a Cons.prems(2,3) have "0 \<le> ota_img_data_len st1"
    by (cases "event_id evt = HTTP_EVENT_ON_DATA")
       (auto simp: test_event_handler_cases c_add_def split: if_splits)
  with Cons.IH [OF b] Cons.prems(2) show ?case
    by simp
qed

section \<open>The percentage\<close>

text \<open>
  Claim C5, as the code has it. After a data event the global \<^verbatim>\<open>update_progress_percent\<close>
  holds the value of the floating-point expression of line 66 for the new
  \<^verbatim>\<open>downloaded_data_len\<close>. There is no clamp. While the downloaded count is between 0 and
  a positive total, that value lies between 0 and 100 and differs from the floor of
  \<open>downloaded * 100 / total\<close>, which is then also the clamped value, by at most 1.
\<close>

theorem percent_within_one_of_floor:
  "(http_on_data len st = Some st' \<longrightarrow>
      downloaded_data_len st' = downloaded_data_len st + len
      \<and> progress_percent (downloaded_data_len st') (ota_img_data_len st)
          = Some (update_progress_percent st'))
   \<and> (0 \<le> dl \<and> dl \<le> img \<and> 0 < img \<longrightarrow>
        (\<exists>pc. progress_percent dl img = Some pc \<and> 0 \<le> pc \<and> pc \<le> 100
           \<and> \<bar>pc - spec_percent dl img\<bar> \<le> 1))"
proof (rule conjI)
  show "http_on_data len st = Some st' \<longrightarrow>
      downloaded_data_len st' = downloaded_data_len st + len
      \<and> progress_percent (downloaded_data_len st') (ota_img_data_len st)
          = Some (update_progress_percent st')"
  proof (rule impI)
    assume "http_on_data len st = Some st'"
    from http_on_data_step [OF this] obtain d pc where
      d: "c_add (downloaded_data_len st) len = Some d"
      and pc: "progress_percent d (ota_img_data_len st) = Some pc"
      and st': "st' = (if pc = loop_var st
                    then st\<lparr>downloaded_data_len := d, update_progress_percent := pc,
                            loop_var := (if loop_var st = 100 then 0 else loop_var st + 5),
                            trace := trace st @ [progress_msg pc]\<rparr>
                    else st\<lparr>downloaded_data_len := d, update_progress_percent := pc,
                            loop_var := (if loop_var st = 105 then 0 else loop_var st)\<rparr>)"
      by blast
    from d have "d = downloaded_data_len st + len"
      by (simp add: c_add_def split: if_splits)
    moreover from st' have "downloaded_data_len st' = d" "update_progress_percent st' = pc"
      by (simp_all split: if_splits)
    ultimately show "downloaded_data_len st' = downloaded_data_len st + len
      \<and> progress_percent (downloaded_data_len st') (ota_img_data_len st)
          = Some (update_progress_percent st')"
      using pc by simp
  qed
next
  show "0 \<le> dl \<and> dl \<le> img \<and> 0 < img \<longrightarrow>
        (\<exists>pc. progress_percent dl img = Some pc \<and> 0 \<le> pc \<and> pc \<le> 100
           \<and> \<bar>pc - spec_percent dl img\<bar> \<le> 1)"
  proof (rule impI)
    assume "0 \<le> dl \<and> dl \<le> img \<and> 0 < img"
    then have a: "0 \<le> dl" "dl \<le> img" "0 < img"
      by simp_all
    from progress_percent_close [OF a] spec_percent_in_range [OF a]
    show "\<exists>pc. progress_percent dl img = Some pc \<and> 0 \<le> pc \<and> pc \<le> 100
           \<and> \<bar>pc - spec_percent dl img\<bar> \<le> 1"
      by simp
  qed
qed

text \<open>
  29 bytes of an image of 100 bytes: the single-precision quotient is just below 0.29,
  the percentage is 28, one less than the floor of the exact value.
\<close>

theorem percent_within_one_of_floor_witness:
  "progress_percent 29 100 = Some 28 \<and> spec_percent 29 100 = 29
   \<and> map_option update_progress_percent
        (http_on_data 29 ((boot_state True Map.empty)\<lparr>ota_img_data_len := 100\<rparr>)) = Some 28"
proof -
  let ?st = "(boot_state True Map.empty)\<lparr>ota_img_data_len := 100\<rparr>"
  have p: "progress_percent 29 100 = Some 28"
    by code_simp
  have s: "spec_percent 29 100 = 29"
    by code_simp
  have "map_option (\<lambda>x. ()) (http_on_data 29 ?st) = Some ()"
    by code_simp
  then obtain st' where h: "http_on_data 29 ?st = Some st'"
    by auto
  have st: "downloaded_data_len ?st = 0" "ota_img_data_len ?st = 100"
    by (simp_all add: boot_state_def)
  from percent_within_one_of_floor [where len = 29 and st = ?st and st' = st' and dl = 29
      and img = 100] h st p
  have "update_progress_percent st' = 28"
    by auto
  with p s h show ?thesis
    by simp
qed

text \<open>
  The percentage is not the floor of the exact quotient (28 for 29 of 100 bytes, where
  the floor is 29), and it is not clamped (200 for 2000 bytes received of an image
  measured as 1000 bytes, where the clamped value is 100).
\<close>

theorem percent_counterexample:
  "progress_percent 29 100 = Some 28 \<and> spec_percent 29 100 = 29
   \<and> progress_percent 2000 1000 = Some 200 \<and> spec_percent 2000 1000 = 100
   \<and> map_option (\<lambda>(rc, st). (downloaded_data_len st, ota_img_data_len st, update_progress_percent st))
        (bytebeam_hal_ota \<lparr>events = [data_event 1000], result = ESP_OK\<rparr>
           \<lparr>events = map data_event [1000, 1000], result = ESP_OK\<rparr> (boot_state True Map.empty))
      = Some (2000, 1000, 200)"
  by code_simp

section \<open>Division by a total of zero\<close>

text \<open>
  Claim C9. The data handler divides by \<^verbatim>\<open>ota_img_data_len\<close> without a guard: with
  \<^verbatim>\<open>ota_img_data_len = 0\<close> its behaviour is undefined. This state is reached: when the
  size-discovery transfer delivers no data event, every download that delivers one runs
  into it. After a size-discovery transfer whose lengths are not negative the total is
  not negative, so the handler is defined only when it is positive; and with a positive
  total and a downloaded count between 0 and the total it is defined.
\<close>

theorem division_by_unknown_total:
  "(ota_img_data_len st = 0 \<longrightarrow> http_on_data len st = None)
   \<and> (\<not> list_ex (\<lambda>e. event_id e = HTTP_EVENT_ON_DATA) (events probe)
        \<and> list_ex (\<lambda>e. event_id e = HTTP_EVENT_ON_DATA) (events dl) \<longrightarrow>
          bytebeam_hal_ota probe dl st = None)
   \<and> ((\<forall>e\<in>set (events probe). 0 \<le> data_len e) \<and> ota_probe probe (ota_reset st) = Some st1
        \<and> http_on_data len st1 = Some st2 \<longrightarrow> 0 < ota_img_data_len st1)
   \<and> (0 < ota_img_data_len st \<and> in_int (ota_img_data_len st)
        \<and> 0 \<le> downloaded_data_len st + len
        \<and> downloaded_data_len st + len \<le> ota_img_data_len st \<longrightarrow>
          (\<exists>st'. http_on_data len st = Some st'))"
proof (intro conjI)
  show "ota_img_data_len st = 0 \<longrightarrow> http_on_data len st = None"
    by (simp add: http_on_data_zero)
next
  show "\<not> list_ex (\<lambda>e. event_id e = HTTP_EVENT_ON_DATA) (events probe)
        \<and> list_ex (\<lambda>e. event_id e = HTTP_EVENT_ON_DATA) (events dl) \<longrightarrow>
          bytebeam_hal_ota probe dl st = None"
  proof (rule impI)
    assume a: "\<not> list_ex (\<lambda>e. event_id e = HTTP_EVENT_ON_DATA) (events probe)
        \<and> list_ex (\<lambda>e. event_id e = HTTP_EVENT_ON_DATA) (events dl)"
    then have p: "ota_probe probe (ota_reset st) = Some (emit HttpClientPerform (ota_reset st))"
      by (simp add: ota_probe_def deliver_no_data)
    have z: "ota_img_data_len (emit HttpsOta (emit HttpClientPerform (ota_reset st))) = 0"
      by (simp add: emit_def ota_reset_def)
    from deliver_http_zero [OF z] a p show "bytebeam_hal_ota probe dl st = None"
      by (simp add: bytebeam_hal_ota_def ota_download_def)
  qed
next
  show "(\<forall>e\<in>set (events probe). 0 \<le> data_len e) \<and> ota_probe probe (ota_reset st) = Some st1
        \<and> http_on_data len st1 = Some st2 \<longrightarrow> 0 < ota_img_data_len st1"
  proof (rule impI)
    assume a: "(\<forall>e\<in>set (events probe). 0 \<le> data_len e)
        \<and> ota_probe probe (ota_reset st) = Some st1 \<and> http_on_data len st1 = Some st2"
    then have d: "deliver test_event_handler (events probe) (emit HttpClientPerform (ota_reset st))
        = Some st1"
      by (simp add: ota_probe_def)
    have "0 \<le> ota_img_data_len (emit HttpClientPerform (ota_reset st))"
      by (simp add: emit_def ota_reset_def)
    from deliver_test_nonneg [OF d _ this] a have "0 \<le> ota_img_data_len st1"
      by simp
    moreover from a http_on_data_zero [of st1 len] have "ota_img_data_len st1 \<noteq> 0"
      by auto
    ultimately show "0 < ota_img_data_len st1"
      by simp
  qed
next
  show "0 < ota_img_data_len st \<and> in_int (ota_img_data_len st)
        \<and> 0 \<le> downloaded_data_len st + len
        \<and> downloaded_data_len st + len \<le> ota_img_data_len st \<longrightarrow>
          (\<exists>st'. http_on_data len st = Some st')"
  proof (rule impI)
    assume a: "0 < ota_img_data_len st \<and> in_int (ota_img_data_len st)
        \<and> 0 \<le> downloaded_data_len st + len
        \<and> downloaded_data_len st + len \<le> ota_img_data_len st"
    define d where "d = downloaded_data_len st + len"
    from a have r: "0 \<le> d" "d \<le> ota_img_data_len st" "0 < ota_img_data_len st"
      by (simp_all add: d_def)
    from a r have "in_int d"
      by (simp add: in_int_def INT_MIN_def INT_MAX_def)
    then have c: "c_add (downloaded_data_len st) len = Some d"
      by (simp add: c_add_def d_def)
    from progress_percent_close [OF r] obtain pc where
      pc: "progress_percent d (ota_img_data_len st) = Some pc" "0 \<le> pc" "pc \<le> 100"
      by blast
    then have "in_int (pc + 5)"
      by (simp add: in_int_def INT_MIN_def INT_MAX_def)
    then have c5: "c_add pc 5 = Some (pc + 5)"
      by (simp add: c_add_def)
    show "\<exists>st'. http_on_data len st = Some st'"
    proof (cases "pc = loop_var st")
      case True
      with c pc(1) c5 show ?thesis
        by (simp add: http_on_data_def Let_def)
    next
      case False
      with c pc(1) show ?thesis
        by (simp add: http_on_data_def Let_def)
    qed
  qed
qed

text \<open>
  From the state after boot: a size-discovery transfer that fails before any data
  arrives, then a download whose first event carries 10 bytes. And, for comparison, a
  handler call with a total of 200 bytes.
\<close>

theorem division_by_unknown_total_witness:
  "ota_img_data_len (boot_state True Map.empty) = 0
   \<and> http_on_data 10 (boot_state True Map.empty) = None
   \<and> bytebeam_hal_ota \<lparr>events = [\<lparr>event_id = HTTP_EVENT_ERROR, data_len = 0\<rparr>], result = ESP_FAIL\<rparr>
        \<lparr>events = [data_event 10], result = ESP_OK\<rparr> (boot_state True Map.empty) = None
   \<and> map_option downloaded_data_len
        (http_on_data 10 ((boot_state True Map.empty)\<lparr>ota_img_data_len := 200\<rparr>)) = Some 10"
proof -
  let ?st = "boot_state True Map.empty"
  let ?p = "\<lparr>events = [\<lparr>event_id = HTTP_EVENT_ERROR, data_len = 0\<rparr>], result = ESP_FAIL\<rparr>"
  let ?d = "\<lparr>events = [data_event 10], result = ESP_OK\<rparr>"
  let ?s2 = "?st\<lparr>ota_img_data_len := 200\<rparr>"
  have z: "ota_img_data_len ?st = 0"
    by (simp add: boot_state_def)
  have e: "\<not> list_ex (\<lambda>e. event_id e = HTTP_EVENT_ON_DATA) (events ?p)
      \<and> list_ex (\<lambda>e. event_id e = HTTP_EVENT_ON_DATA) (events ?d)"
    by (simp add: data_event_def)
  have r: "0 < ota_img_data_len ?s2 \<and> in_int (ota_img_data_len ?s2)
      \<and> 0 \<le> downloaded_data_len ?s2 + 10
      \<and> downloaded_data_len ?s2 + 10 \<le> ota_img_data_len ?s2"
    by (simp add: boot_state_def in_int_def INT_MIN_def INT_MAX_def)
  note t = division_by_unknown_total [where st = ?st and len = 10 and probe = ?p and dl = ?d]
  from t z have a: "http_on_data 10 ?st = None"
    by blast
  from t e have b: "bytebeam_hal_ota ?p ?d ?st = None"
    by blast
  from division_by_unknown_total [where st = ?s2 and len = 10] r
  obtain st' where c: "http_on_data 10 ?s2 = Some st'"
    by blast
  have "map_option downloaded_data_len (http_on_data 10 ?s2) = Some 10"
    by code_simp
  with z a b show ?thesis
    by simp
qed

end
